theory Spec2Isabelle
  imports Main "HOL-Library.Word"
begin

section \<open>The stable index vector of siv.go\<close>

text \<open>
  The Go package keeps three slices: \<open>data\<close> (the live items, packed), \<open>meta\<close> (one
  \<open>metadata\<close> struct per storage position ever allocated) and \<open>indices\<close> (reference
  id to storage position). A \<open>Handle\<close> is the \<open>metadata\<close> struct under another name.

  Go's \<open>int\<close> is taken at its width on the 64-bit targets. The generation \<open>vid\<close> is only
  ever incremented, so it is a \<open>64 word\<close> and \<open>vid++\<close> wraps around; \<open>sint\<close> reads it as
  the signed value Go compares. Reference ids and positions are slice lengths and
  indexes, far below \<open>2 ^ 63\<close>; they are \<open>int\<close>, and every index expression of the source
  is checked against the slice's length, a failed check being the run-time panic.
\<close>

subsection \<open>Data\<close>

datatype error = ErrInvalid | ErrExpired

datatype panic = IndexOutOfRange | NoItemToPop | MakeCapOutOfRange

text \<open>A call either returns or panics; a panic ends the program.\<close>

datatype 'r outcome = Returns 'r | Panics panic

record metadata =
  rid :: int
  vid :: "64 word"

type_synonym Handle = metadata

record 'a SIV =
  data :: "'a list"
  indices :: "int list"
  meta :: "metadata list"

text \<open>The zero value \<open>SIV[T]{}\<close>: three nil slices.\<close>

definition SIV_zero :: "'a SIV" where
  "SIV_zero = \<lparr>data = [], indices = [], meta = []\<rparr>"

text \<open>
  \<open>WithCapacity\<close> reserves room in the three backing arrays and leaves the lengths at 0.
  Each of the three \<open>make\<close> calls panics when the capacity is negative or more than
  the runtime can allocate for its element type; the least of the three limits depends
  on the platform and on \<open>T\<close>, and is the parameter \<open>max_cap\<close>.
\<close>

definition WithCapacity :: "int \<Rightarrow> int \<Rightarrow> 'a SIV outcome" where
  "WithCapacity max_cap c =
     (if c < 0 \<or> max_cap < c then Panics MakeCapOutOfRange else Returns SIV_zero)"

text \<open>An index expression \<open>xs[i]\<close> is in range when \<open>0 <= i < len(xs)\<close>.\<close>

definition in_range :: "int \<Rightarrow> 'b list \<Rightarrow> bool" where
  "in_range i xs \<longleftrightarrow> 0 \<le> i \<and> i < int (length xs)"

text \<open>\<open>m.vid++\<close> on a metadata struct.\<close>

definition bump :: "metadata \<Rightarrow> metadata" where
  "bump m = m\<lparr>vid := vid m + 1\<rparr>"

subsection \<open>Operations\<close>

text \<open>
  \<open>findID\<close>: the bounds check on \<open>h.rid\<close>, then \<open>s.indices[h.rid]\<close>, then \<open>s.meta[id]\<close>,
  which is an index expression of its own.
\<close>

definition findID :: "'a SIV \<Rightarrow> Handle \<Rightarrow> (error + int) outcome" where
  "findID s h =
     (if rid h < 0 \<or> rid h \<ge> int (length (indices s)) then Returns (Inl ErrInvalid)
      else let i = indices s ! nat (rid h) in
        if \<not> in_range i (meta s) then Panics IndexOutOfRange
        else if vid (meta s ! nat i) \<noteq> vid h then Returns (Inl ErrExpired)
        else Returns (Inr i))"

text \<open>
  \<open>Get\<close> returns \<open>(item, err)\<close>; \<open>Inl e\<close> stands for a non-nil \<open>err\<close> (the item is then
  \<open>T\<close>'s zero value), \<open>Inr x\<close> for the item with a nil error. It writes nothing.
\<close>

definition Get :: "'a SIV \<Rightarrow> Handle \<Rightarrow> (error + 'a) outcome" where
  "Get s h =
     (case findID s h of
        Panics p \<Rightarrow> Panics p
      | Returns (Inl e) \<Rightarrow> Returns (Inl e)
      | Returns (Inr i) \<Rightarrow>
          if \<not> in_range i (data s) then Panics IndexOutOfRange
          else Returns (Inr (data s ! nat i)))"

definition Set :: "'a SIV \<Rightarrow> Handle \<Rightarrow> 'a \<Rightarrow> ((error + 'a) \<times> 'a SIV) outcome" where
  "Set s h v =
     (case findID s h of
        Panics p \<Rightarrow> Panics p
      | Returns (Inl e) \<Rightarrow> Returns (Inl e, s)
      | Returns (Inr i) \<Rightarrow>
          if \<not> in_range i (data s) then Panics IndexOutOfRange
          else Returns (Inr (data s ! nat i), s\<lparr>data := (data s)[nat i := v]\<rparr>))"

definition Len :: "'a SIV \<Rightarrow> int" where
  "Len s = int (length (data s))"

text \<open>
  \<open>Put\<close>: when \<open>meta\<close> is longer than \<open>data\<close> the position \<open>len(data)\<close> is inside \<open>meta\<close>,
  its generation is incremented and its metadata is the handle; otherwise all three
  slices grow by one.
\<close>

definition Put :: "'a SIV \<Rightarrow> 'a \<Rightarrow> Handle \<times> 'a SIV" where
  "Put s item =
     (let i = length (data s) in
      if length (meta s) > length (data s) then
        (let m = bump (meta s ! i) in
         (m, s\<lparr>data := data s @ [item], meta := (meta s)[i := m]\<rparr>))
      else
        (\<lparr>rid = int i, vid = 0\<rparr>,
         \<lparr>data = data s @ [item],
          indices = indices s @ [int i],
          meta = meta s @ [\<lparr>rid = int i, vid = 0\<rparr>]\<rparr>))"

text \<open>
  \<open>Remove\<close>. After \<open>findID\<close> the reads \<open>s.data[id1]\<close>, \<open>s.meta[id2]\<close> and, inside the swap,
  \<open>s.indices[rid2]\<close> can each panic; \<open>s.meta[id1]\<close> and \<open>s.indices[rid1]\<close> were already
  read by \<open>findID\<close>. A tuple assignment evaluates its right-hand side first and then
  assigns from left to right. The slice expression \<open>s.data[:len(s.data)-1]\<close> drops the
  last item.
\<close>

definition Remove :: "'a SIV \<Rightarrow> Handle \<Rightarrow> ((error + 'a) \<times> 'a SIV) outcome" where
  "Remove s h =
     (case findID s h of
        Panics p \<Rightarrow> Panics p
      | Returns (Inl e) \<Rightarrow> Returns (Inl e, s)
      | Returns (Inr id1) \<Rightarrow>
          (let id2 = int (length (data s)) - 1 in
           if \<not> in_range id1 (data s) then Panics IndexOutOfRange
           else if \<not> in_range id2 (meta s) then Panics IndexOutOfRange
           else
             (let item = data s ! nat id1;
                  rid1 = rid h;
                  rid2 = rid (meta s ! nat id2)
              in
                if id1 \<noteq> id2 then
                  (if \<not> in_range rid2 (indices s) then Panics IndexOutOfRange
                   else
                     (let d = (data s)[nat id1 := data s ! nat id2, nat id2 := data s ! nat id1];
                          m = (meta s)[nat id1 := meta s ! nat id2, nat id2 := meta s ! nat id1];
                          ix = (indices s)[nat rid1 := indices s ! nat rid2,
                                           nat rid2 := indices s ! nat rid1]
                      in Returns (Inr item,
                           \<lparr>data = butlast d,
                            indices = ix,
                            meta = m[nat id2 := bump (m ! nat id2)]\<rparr>)))
                else
                  Returns (Inr item,
                    \<lparr>data = butlast (data s),
                     indices = indices s,
                     meta = (meta s)[nat id2 := bump (meta s ! nat id2)]\<rparr>))))"

text \<open>
  \<open>Pop\<close> discards the error of \<open>Remove\<close> (\<open>it, _ := ...\<close>); had \<open>Remove\<close> reported one,
  \<open>it\<close> would be \<open>T\<close>'s zero value, written \<open>None\<close> here.
\<close>

definition Pop :: "'a SIV \<Rightarrow> ('a option \<times> 'a SIV) outcome" where
  "Pop s =
     (if length (data s) = 0 then Panics NoItemToPop
      else if \<not> in_range (int (length (data s)) - 1) (meta s) then Panics IndexOutOfRange
      else
        (case Remove s (meta s ! (length (data s) - 1)) of
           Panics p \<Rightarrow> Panics p
         | Returns (Inl e, s') \<Rightarrow> Returns (None, s')
         | Returns (Inr it, s') \<Rightarrow> Returns (Some it, s')))"

text \<open>
  \<open>Iter\<close> and \<open>Iter2\<close>, as the sequence a consumer that never stops receives; a consumer
  that stops early receives a prefix. \<open>Iter2\<close> reads \<open>s.meta[i]\<close> for every position of
  \<open>data\<close>.
\<close>

definition Iter :: "'a SIV \<Rightarrow> 'a list" where
  "Iter s = data s"

definition Iter2 :: "'a SIV \<Rightarrow> (Handle \<times> 'a) list outcome" where
  "Iter2 s =
     (if length (meta s) < length (data s) then Panics IndexOutOfRange
      else Returns (map (\<lambda>i. (meta s ! i, data s ! i)) [0 ..< length (data s)]))"

subsection \<open>Runs of calls\<close>

text \<open>
  The calls a client can make. \<open>Cap\<close> reports the capacity of the backing array of
  \<open>data\<close>, which the growth policy of \<open>append\<close> decides; it reads only, as \<open>Len\<close> and the
  iterators do.
\<close>

datatype 'a call =
    CPut 'a
  | CGet Handle
  | CSet Handle 'a
  | CRemove Handle
  | CPop
  | CLen
  | CCap
  | CIter
  | CIter2

text \<open>The state after one call, \<open>None\<close> when the call panics.\<close>

fun step :: "'a call \<Rightarrow> 'a SIV \<Rightarrow> 'a SIV option" where
  "step (CPut v) s = Some (snd (Put s v))"
| "step (CGet h) s = (case Get s h of Panics p \<Rightarrow> None | Returns r \<Rightarrow> Some s)"
| "step (CSet h v) s = (case Set s h v of Panics p \<Rightarrow> None | Returns r \<Rightarrow> Some (snd r))"
| "step (CRemove h) s = (case Remove s h of Panics p \<Rightarrow> None | Returns r \<Rightarrow> Some (snd r))"
| "step CPop s = (case Pop s of Panics p \<Rightarrow> None | Returns r \<Rightarrow> Some (snd r))"
| "step CLen s = Some s"
| "step CCap s = Some s"
| "step CIter s = Some s"
| "step CIter2 s = (case Iter2 s of Panics p \<Rightarrow> None | Returns r \<Rightarrow> Some s)"

fun run :: "'a call list \<Rightarrow> 'a SIV \<Rightarrow> 'a SIV option" where
  "run [] s = Some s"
| "run (c # cs) s = (case step c s of None \<Rightarrow> None | Some s' \<Rightarrow> run cs s')"

subsection \<open>Specification-level notions\<close>

text \<open>
  The structural invariant of the three slices. \<open>meta\<close> and \<open>indices\<close> have the same
  length and are inverse to each other through \<open>rid\<close>, over the live region and the
  freed tail alike; \<open>data\<close> covers a prefix of \<open>meta\<close>; a position holds an even
  generation exactly when it is inside \<open>data\<close>.
\<close>

definition siv_inv :: "'a SIV \<Rightarrow> bool" where
  "siv_inv s \<longleftrightarrow>
     length (indices s) = length (meta s) \<and>
     length (data s) \<le> length (meta s) \<and>
     (\<forall>p < length (meta s).
        in_range (rid (meta s ! p)) (indices s) \<and> indices s ! nat (rid (meta s ! p)) = int p) \<and>
     (\<forall>r < length (indices s).
        in_range (indices s ! r) (meta s) \<and> rid (meta s ! nat (indices s ! r)) = int r) \<and>
     (\<forall>p < length (meta s). even (vid (meta s ! p)) \<longleftrightarrow> p < length (data s))"

text \<open>
  What a successful \<open>Remove\<close> does to a state satisfying the invariant, with the two
  branches of \<open>id1 != id2\<close> written as one update: position \<open>p\<close> receives the last live
  item and its metadata, the last live position receives the removed metadata with its
  generation incremented, and the two indirection entries are exchanged.
\<close>

definition remove_at :: "'a SIV \<Rightarrow> nat \<Rightarrow> 'a SIV" where
  "remove_at s p =
     (let n = length (data s) - 1;
          r1 = nat (rid (meta s ! p));
          r2 = nat (rid (meta s ! n))
      in \<lparr>data = butlast ((data s)[p := data s ! n]),
          indices = (indices s)[r1 := int n, r2 := int p],
          meta = (meta s)[p := meta s ! n, n := bump (meta s ! p)]\<rparr>)"


text \<open>The generation stored at \<open>meta[indices[r]]\<close>, the one \<open>findID\<close> compares.\<close>

definition gen :: "'a SIV \<Rightarrow> int \<Rightarrow> 64 word" where
  "gen s r = vid (meta s ! nat (indices s ! nat r))"

text \<open>
  A generation counter wrapped between two states when, read as Go's signed \<open>int\<close>, the
  generation stored for some reference id is smaller afterwards than before. Counters
  are only incremented, so this is the overflow from \<open>2 ^ 63 - 1\<close> to \<open>- 2 ^ 63\<close>.
\<close>

definition wrapped :: "'a SIV \<Rightarrow> 'a SIV \<Rightarrow> bool" where
  "wrapped s s' \<longleftrightarrow>
     list_ex (\<lambda>r. sint (gen s' (int r)) < sint (gen s (int r))) [0 ..< length (indices s)]"

text \<open>No call of the run wraps a counter.\<close>

fun nowrap :: "'a call list \<Rightarrow> 'a SIV \<Rightarrow> bool" where
  "nowrap [] s = True"
| "nowrap (c # cs) s =
     (case step c s of None \<Rightarrow> True | Some s' \<Rightarrow> \<not> wrapped s s' \<and> nowrap cs s')"

text \<open>
  The handles one call gives to the client: the result of \<open>Put\<close> and the handles
  \<open>Iter2\<close> yields.
\<close>

fun handles_of :: "'a call \<Rightarrow> 'a SIV \<Rightarrow> Handle list" where
  "handles_of (CPut v) s = [fst (Put s v)]"
| "handles_of CIter2 s = (case Iter2 s of Panics p \<Rightarrow> [] | Returns r \<Rightarrow> map fst r)"
| "handles_of c s = []"

text \<open>All handles given out during a run, in order.\<close>

fun handed_out :: "'a call list \<Rightarrow> 'a SIV \<Rightarrow> Handle list" where
  "handed_out [] s = []"
| "handed_out (c # cs) s =
     (case step c s of None \<Rightarrow> [] | Some s' \<Rightarrow> handles_of c s @ handed_out cs s')"

text \<open>Removing a list of handles one after the other, every removal succeeding.\<close>

fun removes :: "'a SIV \<Rightarrow> Handle list \<Rightarrow> 'a SIV option" where
  "removes s [] = Some s"
| "removes s (h # hs) =
     (case Remove s h of
        Returns (Inr x, s') \<Rightarrow> removes s' hs
      | _ \<Rightarrow> None)"

text \<open>Inserting a list of items one after the other; the handles in order, and the final state.\<close>

fun puts :: "'a SIV \<Rightarrow> 'a list \<Rightarrow> Handle list \<times> 'a SIV" where
  "puts s [] = ([], s)"
| "puts s (v # vs) =
     (case Put s v of (h, s') \<Rightarrow> (case puts s' vs of (hs, s'') \<Rightarrow> (h # hs, s'')))"

text \<open>
  A handle is not newer than the state when its reference id is inside \<open>indices\<close> and
  its generation, as a signed \<open>int\<close>, is at most the one stored for that id.
\<close>

definition not_newer :: "'a SIV \<Rightarrow> Handle \<Rightarrow> bool" where
  "not_newer s g \<longleftrightarrow> in_range (rid g) (indices s) \<and> sint (vid g) \<le> sint (gen s (rid g))"

text \<open>
  The number of freed and not yet reused slots, counted along a run: a successful
  \<open>Remove\<close> or \<open>Pop\<close> frees one, a \<open>Put\<close> that takes the reuse branch consumes one.
\<close>

fun freed_delta :: "'a call \<Rightarrow> 'a SIV \<Rightarrow> int" where
  "freed_delta (CPut v) s = (if length (meta s) > length (data s) then - 1 else 0)"
| "freed_delta (CRemove h) s = (case Remove s h of Returns (Inr x, s') \<Rightarrow> 1 | _ \<Rightarrow> 0)"
| "freed_delta CPop s = (case Pop s of Returns (Some x, s') \<Rightarrow> 1 | _ \<Rightarrow> 0)"
| "freed_delta c s = 0"

fun freed_count :: "'a call list \<Rightarrow> 'a SIV \<Rightarrow> int" where
  "freed_count [] s = 0"
| "freed_count (c # cs) s =
     (case step c s of None \<Rightarrow> 0 | Some s' \<Rightarrow> freed_delta c s + freed_count cs s')"

subsection \<open>Concrete states\<close>

text \<open>
  The handles and states of the test \<open>TestSIV\<close>: three insertions, the removal of the
  second handle, one more insertion, the removal of the first handle.
\<close>

definition scn_h1 :: Handle where "scn_h1 = \<lparr>rid = 0, vid = 0\<rparr>"
definition scn_h2 :: Handle where "scn_h2 = \<lparr>rid = 1, vid = 0\<rparr>"
definition scn_h3 :: Handle where "scn_h3 = \<lparr>rid = 2, vid = 0\<rparr>"
definition scn_h4 :: Handle where "scn_h4 = \<lparr>rid = 1, vid = 2\<rparr>"

definition scn_s1 :: "int SIV" where
  "scn_s1 = \<lparr>data = [10], indices = [0], meta = [scn_h1]\<rparr>"

definition scn_s2 :: "int SIV" where
  "scn_s2 = \<lparr>data = [10, 20], indices = [0, 1], meta = [scn_h1, scn_h2]\<rparr>"

definition scn_s3 :: "int SIV" where
  "scn_s3 = \<lparr>data = [10, 20, 30], indices = [0, 1, 2], meta = [scn_h1, scn_h2, scn_h3]\<rparr>"

definition scn_s4 :: "int SIV" where
  "scn_s4 = \<lparr>data = [10, 30], indices = [0, 2, 1],
             meta = [scn_h1, scn_h3, \<lparr>rid = 1, vid = 1\<rparr>]\<rparr>"

definition scn_s5 :: "int SIV" where
  "scn_s5 = \<lparr>data = [10, 30, 40], indices = [0, 2, 1], meta = [scn_h1, scn_h3, scn_h4]\<rparr>"

definition scn_s6 :: "int SIV" where
  "scn_s6 = \<lparr>data = [40, 30], indices = [2, 0, 1],
             meta = [scn_h4, scn_h3, \<lparr>rid = 0, vid = 1\<rparr>]\<rparr>"

text \<open>The state after one insertion and one \<open>Pop\<close>: no live item, one freed slot.\<close>

definition popped :: "int SIV" where
  "popped = \<lparr>data = [], indices = [0], meta = [\<lparr>rid = 0, vid = 1\<rparr>]\<rparr>"

text \<open>
  After the first two insertions of the test: the state when the first handle is
  removed, and the state when 30 is inserted next.
\<close>

definition exp_s1 :: "int SIV" where
  "exp_s1 = \<lparr>data = [20], indices = [1, 0], meta = [scn_h2, \<lparr>rid = 0, vid = 1\<rparr>]\<rparr>"

definition exp_s2 :: "int SIV" where
  "exp_s2 = \<lparr>data = [20, 30], indices = [1, 0], meta = [scn_h2, \<lparr>rid = 0, vid = 2\<rparr>]\<rparr>"

text \<open>After the three insertions of the test and the removal of its second and first handle.\<close>

definition stk_s1 :: "int SIV" where
  "stk_s1 = \<lparr>data = [30], indices = [1, 2, 0],
             meta = [scn_h3, \<lparr>rid = 0, vid = 1\<rparr>, \<lparr>rid = 1, vid = 1\<rparr>]\<rparr>"

text \<open>
  A run that wraps a counter: one insertion, then \<open>2 ^ 62 - 1\<close> rounds of \<open>Pop\<close> and
  insertion on the same slot. The last insertion returns \<open>wrap_h\<close>, whose generation is
  \<open>2 ^ 63 - 2\<close>, and leaves \<open>wrap_s0\<close>; removing \<open>wrap_h\<close> leaves \<open>wrap_s1\<close>.
\<close>

definition wrap_n :: nat where
  "wrap_n = 2 ^ 62 - 2"

definition wrap_calls :: "int call list" where
  "wrap_calls = CPut 0 # CPop # concat (replicate wrap_n [CPut 0, CPop]) @ [CPut 0]"

definition wrap_h :: Handle where
  "wrap_h = \<lparr>rid = 0, vid = 2 ^ 63 - 2\<rparr>"

definition wrap_s0 :: "int SIV" where
  "wrap_s0 = \<lparr>data = [0], indices = [0], meta = [wrap_h]\<rparr>"

definition wrap_s1 :: "int SIV" where
  "wrap_s1 = \<lparr>data = [], indices = [0], meta = [\<lparr>rid = 0, vid = 2 ^ 63 - 1\<rparr>]\<rparr>"

text \<open>The state of the test after the removal, popped once, and then refilled with 50.\<close>

definition scn_s4_popped :: "int SIV" where
  "scn_s4_popped = \<lparr>data = [10], indices = [0, 2, 1],
                    meta = [scn_h1, \<lparr>rid = 2, vid = 1\<rparr>, \<lparr>rid = 1, vid = 1\<rparr>]\<rparr>"

definition scn_s4_refilled :: "int SIV" where
  "scn_s4_refilled = \<lparr>data = [10, 50], indices = [0, 2, 1],
                      meta = [scn_h1, \<lparr>rid = 2, vid = 2\<rparr>, \<lparr>rid = 1, vid = 1\<rparr>]\<rparr>"

section \<open>The invariant\<close>

lemma rid_bump [simp]: "rid (bump m) = rid m"
  by (simp add: bump_def)

lemma vid_bump [simp]: "vid (bump m) = vid m + 1"
  by (simp add: bump_def)

lemma siv_inv_zero: "siv_inv SIV_zero"
  by (simp add: siv_inv_def SIV_zero_def)

lemma siv_inv_lens:
  "siv_inv s \<Longrightarrow> length (indices s) = length (meta s) \<and> length (data s) \<le> length (meta s)"
  by (simp add: siv_inv_def)

lemma siv_inv_meta:
  assumes "siv_inv s" "p < length (meta s)"
  shows "0 \<le> rid (meta s ! p)" "nat (rid (meta s ! p)) < length (meta s)"
    "indices s ! nat (rid (meta s ! p)) = int p"
  using assms by (auto simp: siv_inv_def in_range_def)

lemma siv_inv_ind:
  assumes "siv_inv s" "r < length (meta s)"
  shows "0 \<le> indices s ! r" "nat (indices s ! r) < length (meta s)"
    "rid (meta s ! nat (indices s ! r)) = int r"
  using assms by (auto simp: siv_inv_def in_range_def)

lemma siv_inv_parity:
  "siv_inv s \<Longrightarrow> p < length (meta s) \<Longrightarrow> even (vid (meta s ! p)) \<longleftrightarrow> p < length (data s)"
  by (simp add: siv_inv_def)

text \<open>Under the invariant \<open>findID\<close> never panics.\<close>

lemma findID_inv:
  assumes "siv_inv s"
  shows "findID s h =
     (if rid h < 0 \<or> int (length (indices s)) \<le> rid h then Returns (Inl ErrInvalid)
      else if vid (meta s ! nat (indices s ! nat (rid h))) \<noteq> vid h then Returns (Inl ErrExpired)
      else Returns (Inr (indices s ! nat (rid h))))"
proof (cases "rid h < 0 \<or> int (length (indices s)) \<le> rid h")
  case True
  then show ?thesis by (auto simp: findID_def)
next
  case False
  then have r: "nat (rid h) < length (meta s)"
    using siv_inv_lens [OF assms] by auto
  have "in_range (indices s ! nat (rid h)) (meta s)"
    using siv_inv_ind(1,2) [OF assms r] by (simp add: in_range_def)
  with False show ?thesis by (simp add: findID_def Let_def)
qed

lemma siv_inv_Put: "siv_inv s \<Longrightarrow> siv_inv (snd (Put s v))"
  unfolding siv_inv_def Put_def Let_def bump_def in_range_def
  by (auto simp: nth_append nth_list_update less_Suc_eq)

lemma siv_inv_data_update: "siv_inv s \<Longrightarrow> siv_inv (s\<lparr>data := (data s)[i := v]\<rparr>)"
  by (auto simp: siv_inv_def in_range_def)

lemma siv_inv_Set: "siv_inv s \<Longrightarrow> Set s h v = Returns (r, s') \<Longrightarrow> siv_inv s'"
  by (auto simp: Set_def siv_inv_data_update split: outcome.splits sum.splits if_splits)

text \<open>\<open>Remove\<close> under the invariant: an error, a panic at \<open>s.data[id1]\<close>, or \<open>remove_at\<close>.\<close>

lemma Remove_inv:
  assumes "siv_inv s"
  shows "Remove s h =
     (case findID s h of
        Panics p \<Rightarrow> Panics p
      | Returns (Inl e) \<Rightarrow> Returns (Inl e, s)
      | Returns (Inr i) \<Rightarrow>
          if nat i < length (data s) then Returns (Inr (data s ! nat i), remove_at s (nat i))
          else Panics IndexOutOfRange)"
proof (cases "findID s h")
  case (Panics p)
  then show ?thesis by (simp add: Remove_def)
next
  case (Returns r)
  show ?thesis
  proof (cases r)
    case (Inl e)
    with Returns show ?thesis by (simp add: Remove_def)
  next
    case (Inr i)
    with Returns have fi: "findID s h = Returns (Inr i)" by simp
    from fi have rb: "0 \<le> rid h" "nat (rid h) < length (meta s)"
      and i: "i = indices s ! nat (rid h)"
      using findID_inv [OF assms, of h] siv_inv_lens [OF assms] by (auto split: if_splits)
    have i0: "0 \<le> i" and ri: "rid (meta s ! nat i) = rid h"
      using siv_inv_ind [OF assms rb(2)] i rb(1) by auto
    show ?thesis
    proof (cases "nat i < length (data s)")
      case False
      then have "\<not> in_range i (data s)" by (auto simp: in_range_def)
      with False show ?thesis by (simp add: Remove_def fi Let_def)
    next
      case True
      define n where "n = length (data s) - 1"
      have n: "n < length (data s)" "n < length (meta s)" "int (length (data s)) - 1 = int n"
        using True siv_inv_lens [OF assms] by (auto simp: n_def)
      have r2: "0 \<le> rid (meta s ! n)" "nat (rid (meta s ! n)) < length (meta s)"
        "indices s ! nat (rid (meta s ! n)) = int n"
        using siv_inv_meta [OF assms n(2)] by auto
      have r1: "indices s ! nat (rid h) = int (nat i)"
        using i i0 by simp
      have g1: "in_range i (data s)" using True i0 by (auto simp: in_range_def)
      have g2: "in_range (int n) (meta s)" using n by (auto simp: in_range_def)
      have g3: "in_range (rid (meta s ! n)) (indices s)"
        using r2 siv_inv_lens [OF assms] by (auto simp: in_range_def)
      show ?thesis
      proof (cases "nat i = n")
        case same: True
        then have e: "i = int n" using i0 by auto
        have "remove_at s n = \<lparr>data = butlast (data s), indices = indices s,
                 meta = (meta s)[n := bump (meta s ! n)]\<rparr>"
          unfolding remove_at_def Let_def n_def [symmetric]
          using r2(3) siv_inv_lens [OF assms] r2(2)
          by (simp add: list_update_same_conv)
        then show ?thesis
          using g1 g2 True same by (simp add: Remove_def fi Let_def n(3) e)
      next
        case diff: False
        then have ne: "i \<noteq> int n" by auto
        have d: "butlast ((data s)[nat i := data s ! n, n := data s ! nat i])
                 = butlast ((data s)[nat i := data s ! n])"
          by (simp add: butlast_list_update n_def)
        have ra: "remove_at s (nat i) = \<lparr>data = butlast ((data s)[nat i := data s ! n]),
            indices = (indices s)[nat (rid h) := int n, nat (rid (meta s ! n)) := int (nat i)],
            meta = (meta s)[nat i := meta s ! n, n := bump (meta s ! nat i)]\<rparr>"
          unfolding remove_at_def Let_def n_def [symmetric] ri ..
        have m: "(meta s)[nat i := meta s ! n, n := meta s ! nat i] ! n = meta s ! nat i"
          using n(2) by simp
        show ?thesis
          using g1 g2 g3 True ne
          by (simp add: Remove_def fi Let_def n(3) ra d m r1 r2(3))
      qed
    qed
  qed
qed

text \<open>The parts of \<open>remove_at s p\<close>, position by position.\<close>

lemma remove_at_parts:
  assumes w: "siv_inv s" and p: "p < length (data s)"
  defines "n \<equiv> length (data s) - 1"
  defines "r1 \<equiv> nat (rid (meta s ! p))"
  defines "r2 \<equiv> nat (rid (meta s ! n))"
  shows "length (data (remove_at s p)) = n"
    and "length (indices (remove_at s p)) = length (meta s)"
    and "length (meta (remove_at s p)) = length (meta s)"
    and "\<And>r. r < length (meta s) \<Longrightarrow> indices (remove_at s p) ! r =
           (if r = r2 then int p else if r = r1 then int n else indices s ! r)"
    and "\<And>q. q < length (meta s) \<Longrightarrow> meta (remove_at s p) ! q =
           (if q = n then bump (meta s ! p) else if q = p then meta s ! n else meta s ! q)"
    and "\<And>q. q < n \<Longrightarrow> data (remove_at s p) ! q =
           (if q = p then data s ! n else data s ! q)"
proof -
  have len: "length (indices s) = length (meta s)" "length (data s) \<le> length (meta s)"
    using siv_inv_lens [OF w] by auto
  have ra: "remove_at s p = \<lparr>data = butlast ((data s)[p := data s ! n]),
      indices = (indices s)[r1 := int n, r2 := int p],
      meta = (meta s)[p := meta s ! n, n := bump (meta s ! p)]\<rparr>"
    unfolding remove_at_def Let_def n_def r1_def r2_def ..
  show "length (data (remove_at s p)) = n"
    by (simp add: ra n_def)
  show "length (indices (remove_at s p)) = length (meta s)"
    by (simp add: ra len)
  show "length (meta (remove_at s p)) = length (meta s)"
    by (simp add: ra)
  show "indices (remove_at s p) ! r =
      (if r = r2 then int p else if r = r1 then int n else indices s ! r)"
    if "r < length (meta s)" for r
    using that by (simp add: ra nth_list_update len)
  show "meta (remove_at s p) ! q =
      (if q = n then bump (meta s ! p) else if q = p then meta s ! n else meta s ! q)"
    if "q < length (meta s)" for q
    using that by (simp add: ra nth_list_update)
  show "data (remove_at s p) ! q = (if q = p then data s ! n else data s ! q)"
    if "q < n" for q
    using that p by (simp add: ra nth_butlast nth_list_update n_def)
qed

lemma siv_inv_remove_at:
  assumes w: "siv_inv s" and p: "p < length (data s)"
  shows "siv_inv (remove_at s p)"
proof -
  define n where "n = length (data s) - 1"
  define r1 where "r1 = nat (rid (meta s ! p))"
  define r2 where "r2 = nat (rid (meta s ! n))"
  note parts = remove_at_parts [OF w p, folded n_def r1_def r2_def]
  have len: "length (indices s) = length (meta s)" "length (data s) \<le> length (meta s)"
    using siv_inv_lens [OF w] by auto
  have n: "n < length (data s)" "n < length (meta s)" "p \<le> n" "p < length (meta s)"
    "length (data s) = Suc n"
    using p len by (auto simp: n_def)
  have r1: "r1 < length (meta s)" "indices s ! r1 = int p" "rid (meta s ! p) = int r1"
    using siv_inv_meta [OF w n(4)] by (auto simp: r1_def)
  have r2: "r2 < length (meta s)" "indices s ! r2 = int n" "rid (meta s ! n) = int r2"
    using siv_inv_meta [OF w n(2)] by (auto simp: r2_def)
  have eq12: "r1 = r2 \<longleftrightarrow> p = n"
    using r1 r2 by auto
  have c3: "in_range (rid (meta (remove_at s p) ! q)) (indices (remove_at s p)) \<and>
      indices (remove_at s p) ! nat (rid (meta (remove_at s p) ! q)) = int q"
    if q: "q < length (meta s)" for q
  proof -
    have rq: "0 \<le> rid (meta s ! q)" "nat (rid (meta s ! q)) < length (meta s)"
      "indices s ! nat (rid (meta s ! q)) = int q"
      using siv_inv_meta [OF w q] by auto
    have i1: "nat (rid (meta s ! q)) = r1 \<longleftrightarrow> q = p"
      using rq r1 by auto
    have i2: "nat (rid (meta s ! q)) = r2 \<longleftrightarrow> q = n"
      using rq r2 by auto
    show ?thesis
      using q rq r1 r2 i1 i2 eq12
      by (auto simp: parts in_range_def)
  qed
  have c4: "in_range (indices (remove_at s p) ! r) (meta (remove_at s p)) \<and>
      rid (meta (remove_at s p) ! nat (indices (remove_at s p) ! r)) = int r"
    if r: "r < length (meta s)" for r
  proof -
    have ir: "0 \<le> indices s ! r" "nat (indices s ! r) < length (meta s)"
      "rid (meta s ! nat (indices s ! r)) = int r"
      using siv_inv_ind [OF w r] by auto
    have j1: "nat (indices s ! r) = p \<longleftrightarrow> r = r1"
      using ir r1 by auto
    have j2: "nat (indices s ! r) = n \<longleftrightarrow> r = r2"
      using ir r2 by auto
    show ?thesis
      using r ir r1 r2 j1 j2 eq12 n
      by (auto simp: parts in_range_def)
  qed
  have c5: "even (vid (meta (remove_at s p) ! q)) \<longleftrightarrow> q < n" if q: "q < length (meta s)" for q
    using q n siv_inv_parity [OF w q] siv_inv_parity [OF w n(2)] siv_inv_parity [OF w n(4)]
    by (auto simp: parts)
  show ?thesis
    unfolding siv_inv_def
    using c3 c4 c5 n len by (simp add: parts)
qed

lemma siv_inv_Remove: "siv_inv s \<Longrightarrow> Remove s h = Returns (r, s') \<Longrightarrow> siv_inv s'"
  by (auto simp: Remove_inv siv_inv_remove_at split: outcome.splits sum.splits if_splits)

lemma siv_inv_Pop: "siv_inv s \<Longrightarrow> Pop s = Returns (r, s') \<Longrightarrow> siv_inv s'"
  by (auto simp: Pop_def dest: siv_inv_Remove
      split: outcome.splits sum.splits if_splits prod.splits)

lemma siv_inv_step: "siv_inv s \<Longrightarrow> step c s = Some s' \<Longrightarrow> siv_inv s'"
  by (cases c)
    (auto simp: siv_inv_Put dest: siv_inv_Set siv_inv_Remove siv_inv_Pop
      split: outcome.splits prod.splits)

lemma siv_inv_run: "siv_inv s \<Longrightarrow> run cs s = Some s' \<Longrightarrow> siv_inv s'"
  by (induction cs arbitrary: s) (auto dest: siv_inv_step split: option.splits)

lemma siv_inv_reachable: "run cs SIV_zero = Some s \<Longrightarrow> siv_inv s"
  using siv_inv_run [OF siv_inv_zero] .

lemma in_range_nat: "in_range i xs \<longleftrightarrow> 0 \<le> i \<and> nat i < length xs"
  by (auto simp: in_range_def)

text \<open>A handle that passes \<open>findID\<close> with an even generation resolves inside \<open>data\<close>.\<close>

lemma even_resolves_live:
  assumes w: "siv_inv s" and f: "findID s h = Returns (Inr i)" and e: "even (vid h)"
  shows "in_range i (data s)"
proof -
  from f have rb: "0 \<le> rid h" "nat (rid h) < length (meta s)"
    and i: "i = indices s ! nat (rid h)" and v: "vid (meta s ! nat i) = vid h"
    using findID_inv [OF w, of h] siv_inv_lens [OF w] by (auto split: if_splits)
  have "0 \<le> i" "nat i < length (meta s)"
    using siv_inv_ind [OF w rb(2)] i by auto
  moreover have "nat i < length (data s)"
    using siv_inv_parity [OF w \<open>nat i < length (meta s)\<close>] v e by simp
  ultimately show ?thesis by (simp add: in_range_def)
qed

section \<open>Concrete runs\<close>

lemmas scn_defs = scn_h1_def scn_h2_def scn_h3_def scn_h4_def
  scn_s1_def scn_s2_def scn_s3_def scn_s4_def scn_s5_def scn_s6_def popped_def

lemmas op_defs = SIV_zero_def Put_def Pop_def Remove_def Get_def Set_def findID_def
  in_range_def bump_def Let_def

lemma run_scn_s2: "run [CPut 10, CPut 20] SIV_zero = Some scn_s2"
  by (simp add: scn_defs op_defs)

lemma run_scn_s3: "run [CPut 10, CPut 20, CPut 30] SIV_zero = Some scn_s3"
  by (simp add: scn_defs op_defs)

lemma run_scn_s4: "run [CPut 10, CPut 20, CPut 30, CRemove scn_h2] SIV_zero = Some scn_s4"
  by (simp add: scn_defs op_defs)

lemma run_popped: "run [CPut 10, CPop] SIV_zero = Some popped"
  by (simp add: scn_defs op_defs)

section \<open>Handle validation\<close>

text \<open>
  Claim C1, as the code has it. In every state reached from the empty container, for
  every handle \<open>h\<close>: \<open>Get\<close>, \<open>Set\<close> and \<open>Remove\<close> return \<open>ErrInvalid\<close> exactly when
  \<open>h.rid\<close> is outside \<open>indices\<close>, and \<open>ErrExpired\<close> exactly when it is inside and the
  generation stored at \<open>meta[indices[rid]]\<close> differs from \<open>h.vid\<close>; a call that returns an
  error leaves the state as it was. When \<open>h.rid\<close> is inside, the generations agree and
  \<open>h.vid\<close> is even, as the generation of every handle \<open>Put\<close> returns is, the
  position \<open>indices[rid]\<close> is live and the three calls succeed on it. Nothing is said
  here of a handle whose odd generation equals that of a freed slot.
\<close>

theorem handle_resolution:
  assumes "run cs SIV_zero = Some s"
  shows "(Get s h = Returns (Inl ErrInvalid) \<longleftrightarrow> \<not> in_range (rid h) (indices s)) \<and>
         (Set s h v = Returns (Inl ErrInvalid, s) \<longleftrightarrow> \<not> in_range (rid h) (indices s)) \<and>
         (Remove s h = Returns (Inl ErrInvalid, s) \<longleftrightarrow> \<not> in_range (rid h) (indices s)) \<and>
         (Get s h = Returns (Inl ErrExpired) \<longleftrightarrow>
            in_range (rid h) (indices s) \<and> gen s (rid h) \<noteq> vid h) \<and>
         (Set s h v = Returns (Inl ErrExpired, s) \<longleftrightarrow>
            in_range (rid h) (indices s) \<and> gen s (rid h) \<noteq> vid h) \<and>
         (Remove s h = Returns (Inl ErrExpired, s) \<longleftrightarrow>
            in_range (rid h) (indices s) \<and> gen s (rid h) \<noteq> vid h) \<and>
         (\<forall>e s'. Set s h v = Returns (Inl e, s') \<longrightarrow> s' = s) \<and>
         (\<forall>e s'. Remove s h = Returns (Inl e, s') \<longrightarrow> s' = s) \<and>
         (in_range (rid h) (indices s) \<and> gen s (rid h) = vid h \<and> even (vid h) \<longrightarrow>
            in_range (indices s ! nat (rid h)) (data s) \<and>
            findID s h = Returns (Inr (indices s ! nat (rid h))) \<and>
            Get s h = Returns (Inr (data s ! nat (indices s ! nat (rid h)))) \<and>
            Set s h v = Returns (Inr (data s ! nat (indices s ! nat (rid h))),
                           s\<lparr>data := (data s)[nat (indices s ! nat (rid h)) := v]\<rparr>) \<and>
            Remove s h = Returns (Inr (data s ! nat (indices s ! nat (rid h))),
                           remove_at s (nat (indices s ! nat (rid h)))))"
proof -
  have w: "siv_inv s" using assms by (rule siv_inv_reachable)
  note f = findID_inv [OF w, of h]
  have live: "in_range (indices s ! nat (rid h)) (data s)"
    if "in_range (rid h) (indices s)" "gen s (rid h) = vid h" "even (vid h)"
    using that even_resolves_live [OF w, of h "indices s ! nat (rid h)"] f
    by (simp add: in_range_def gen_def)
  have g: "Get s h = Returns (Inl ErrInvalid) \<longleftrightarrow> \<not> in_range (rid h) (indices s)"
    "Get s h = Returns (Inl ErrExpired) \<longleftrightarrow>
       in_range (rid h) (indices s) \<and> gen s (rid h) \<noteq> vid h"
    by (auto simp: Get_def f in_range_def gen_def)
  have st: "Set s h v = Returns (Inl ErrInvalid, s) \<longleftrightarrow> \<not> in_range (rid h) (indices s)"
    "Set s h v = Returns (Inl ErrExpired, s) \<longleftrightarrow>
       in_range (rid h) (indices s) \<and> gen s (rid h) \<noteq> vid h"
    "\<forall>e s'. Set s h v = Returns (Inl e, s') \<longrightarrow> s' = s"
    by (auto simp: Set_def f in_range_def gen_def)
  have rm: "Remove s h = Returns (Inl ErrInvalid, s) \<longleftrightarrow> \<not> in_range (rid h) (indices s)"
    "Remove s h = Returns (Inl ErrExpired, s) \<longleftrightarrow>
       in_range (rid h) (indices s) \<and> gen s (rid h) \<noteq> vid h"
    "\<forall>e s'. Remove s h = Returns (Inl e, s') \<longrightarrow> s' = s"
    by (auto simp: Remove_inv [OF w] f in_range_def gen_def)
  have ok: "findID s h = Returns (Inr (indices s ! nat (rid h))) \<and>
            Get s h = Returns (Inr (data s ! nat (indices s ! nat (rid h)))) \<and>
            Set s h v = Returns (Inr (data s ! nat (indices s ! nat (rid h))),
                           s\<lparr>data := (data s)[nat (indices s ! nat (rid h)) := v]\<rparr>) \<and>
            Remove s h = Returns (Inr (data s ! nat (indices s ! nat (rid h))),
                           remove_at s (nat (indices s ! nat (rid h))))"
    if a: "in_range (rid h) (indices s)" "gen s (rid h) = vid h" "even (vid h)"
  proof -
    have fi: "findID s h = Returns (Inr (indices s ! nat (rid h)))"
      using a by (simp add: f in_range_def gen_def)
    from live [OF a] show ?thesis
      by (simp add: fi Get_def Set_def Remove_inv [OF w] in_range_nat)
  qed
  show ?thesis
    using g st rm live ok by blast
qed

theorem handle_resolution_witness:
  "run [CPut 10, CPut 20] SIV_zero = Some scn_s2 \<and>
   in_range (rid scn_h2) (indices scn_s2) \<and> gen scn_s2 (rid scn_h2) = vid scn_h2 \<and>
   even (vid scn_h2) \<and>
   Get scn_s2 scn_h2 = Returns (Inr 20) \<and>
   Set scn_s2 scn_h2 25 = Returns (Inr 20, scn_s2\<lparr>data := [10, 25]\<rparr>) \<and>
   Remove scn_s2 scn_h2 = Returns (Inr 20, remove_at scn_s2 1)"
proof -
  have a: "in_range (rid scn_h2) (indices scn_s2) \<and> gen scn_s2 (rid scn_h2) = vid scn_h2 \<and>
      even (vid scn_h2)"
    by (simp add: scn_defs in_range_def gen_def)
  have d: "indices scn_s2 ! nat (rid scn_h2) = 1" "data scn_s2 = [10, 20]"
    by (simp_all add: scn_defs)
  from handle_resolution [OF run_scn_s2, of scn_h2 25] a run_scn_s2 show ?thesis
    by (simp add: d)
qed

text \<open>
  Claim C1 as stated fails: after one insertion and one \<open>Pop\<close> the handle \<open>(0, 1)\<close> has
  its reference id inside \<open>indices\<close> and the generation of the freed slot, yet the three
  calls panic at \<open>s.data[id]\<close> instead of succeeding.
\<close>

theorem odd_generation_handle_panics:
  "run [CPut 10, CPop] SIV_zero = Some popped \<and>
   in_range (rid \<lparr>rid = 0, vid = 1\<rparr>) (indices popped) \<and>
   gen popped (rid \<lparr>rid = 0, vid = 1\<rparr>) = vid \<lparr>rid = 0, vid = 1\<rparr> \<and>
   Get popped \<lparr>rid = 0, vid = 1\<rparr> = Panics IndexOutOfRange \<and>
   Set popped \<lparr>rid = 0, vid = 1\<rparr> 7 = Panics IndexOutOfRange \<and>
   Remove popped \<lparr>rid = 0, vid = 1\<rparr> = Panics IndexOutOfRange"
  by (simp add: scn_defs op_defs gen_def)

section \<open>The scenario of the test\<close>

text \<open>
  Claim C9, as the code has it: inserting 10, 20, 30 gives the handles \<open>h1\<close>, \<open>h2\<close>,
  \<open>h3\<close> and the storage \<open>[10, 20, 30]\<close>; \<open>Remove(h2)\<close> returns 20 and leaves \<open>[10, 30]\<close>;
  inserting 40 returns \<open>h4\<close> with the reference id of \<open>h2\<close> and a generation two greater
  than that of \<open>h2\<close>, and leaves \<open>[10, 30, 40]\<close>; \<open>Get(h3)\<close> returns 30; \<open>Remove(h1)\<close>
  returns 10 and leaves \<open>[40, 30]\<close>.
\<close>

theorem test_scenario:
  "Put SIV_zero 10 = (scn_h1, scn_s1) \<and> Put scn_s1 20 = (scn_h2, scn_s2) \<and>
   Put scn_s2 30 = (scn_h3, scn_s3) \<and> data scn_s3 = [10, 20, 30] \<and>
   Remove scn_s3 scn_h2 = Returns (Inr 20, scn_s4) \<and> data scn_s4 = [10, 30] \<and>
   Put scn_s4 40 = (scn_h4, scn_s5) \<and> rid scn_h4 = rid scn_h2 \<and>
   vid scn_h4 = vid scn_h2 + 2 \<and> sint (vid scn_h4) = sint (vid scn_h2) + 2 \<and>
   data scn_s5 = [10, 30, 40] \<and>
   Get scn_s5 scn_h3 = Returns (Inr 30) \<and>
   Remove scn_s5 scn_h1 = Returns (Inr 10, scn_s6) \<and> data scn_s6 = [40, 30]"
  by (simp add: scn_defs op_defs)

text \<open>
  Claim C9 as stated fails at the generation of \<open>h4\<close>: it is not one greater than that
  of \<open>h2\<close>, since the slot's counter was incremented by the removal and again by the
  insertion.
\<close>

theorem test_scenario_generation:
  "Put scn_s4 40 = (scn_h4, scn_s5) \<and> vid scn_h4 \<noteq> vid scn_h2 + 1 \<and>
   sint (vid scn_h4) \<noteq> sint (vid scn_h2) + 1"
  by (simp add: scn_defs op_defs)

section \<open>Round trips\<close>

text \<open>What \<open>Put\<close> returns resolves to the new last position.\<close>

lemma Put_parts:
  assumes w: "siv_inv s"
  shows "data (snd (Put s v)) = data s @ [v]"
    and "in_range (rid (fst (Put s v))) (indices (snd (Put s v)))"
    and "indices (snd (Put s v)) ! nat (rid (fst (Put s v))) = int (length (data s))"
    and "meta (snd (Put s v)) ! length (data s) = fst (Put s v)"
    and "even (vid (fst (Put s v)))"
proof -
  have len: "length (indices s) = length (meta s)" "length (data s) \<le> length (meta s)"
    using siv_inv_lens [OF w] by auto
  show "data (snd (Put s v)) = data s @ [v]"
    by (simp add: Put_def Let_def)
  show "meta (snd (Put s v)) ! length (data s) = fst (Put s v)"
    using len by (auto simp: Put_def Let_def nth_append)
  show "even (vid (fst (Put s v)))"
    using siv_inv_parity [OF w, of "length (data s)"] by (simp add: Put_def Let_def)
  show "in_range (rid (fst (Put s v))) (indices (snd (Put s v)))"
    using len siv_inv_meta [OF w, of "length (data s)"]
    by (auto simp: Put_def Let_def in_range_def)
  show "indices (snd (Put s v)) ! nat (rid (fst (Put s v))) = int (length (data s))"
    using len siv_inv_meta [OF w, of "length (data s)"]
    by (auto simp: Put_def Let_def nth_append)
qed





section \<open>Pop\<close>

lemma last_handle_resolves:
  assumes w: "siv_inv s" and n: "length (data s) = Suc n"
  shows "findID s (meta s ! n) = Returns (Inr (int n))"
proof -
  have nm: "n < length (meta s)"
    using n siv_inv_lens [OF w] by auto
  have "in_range (rid (meta s ! n)) (indices s)" "indices s ! nat (rid (meta s ! n)) = int n"
    using siv_inv_meta [OF w nm] siv_inv_lens [OF w] by (auto simp: in_range_def)
  then show ?thesis
    by (simp add: findID_inv [OF w] in_range_def)
qed

lemma remove_at_last:
  assumes w: "siv_inv s" and n: "length (data s) = Suc n"
  shows "remove_at s n =
           \<lparr>data = butlast (data s), indices = indices s,
            meta = (meta s)[n := bump (meta s ! n)]\<rparr>"
proof -
  have nm: "n < length (meta s)"
    using n siv_inv_lens [OF w] by auto
  have "nat (rid (meta s ! n)) < length (indices s)" "indices s ! nat (rid (meta s ! n)) = int n"
    using siv_inv_meta [OF w nm] siv_inv_lens [OF w] by auto
  then show ?thesis
    unfolding remove_at_def Let_def n
    by (simp add: list_update_same_conv)
qed

text \<open>
  Claim C8. On an empty container \<open>Pop\<close> panics. In a state reached from the empty
  container with a live item, the metadata at the last live position is a handle that
  resolves to that position, \<open>Remove\<close> on it succeeds with the last item, and \<open>Pop\<close>
  returns that item and leaves the state \<open>Remove\<close> leaves.
\<close>

theorem pop_is_remove_of_last:
  assumes "run cs SIV_zero = Some s"
  shows "(data s = [] \<longrightarrow> Pop s = Panics NoItemToPop) \<and>
         (data s \<noteq> [] \<longrightarrow>
            findID s (meta s ! (length (data s) - 1)) = Returns (Inr (int (length (data s) - 1))) \<and>
            Remove s (meta s ! (length (data s) - 1)) =
              Returns (Inr (last (data s)), remove_at s (length (data s) - 1)) \<and>
            Pop s = Returns (Some (last (data s)), remove_at s (length (data s) - 1)) \<and>
            data (remove_at s (length (data s) - 1)) = butlast (data s))"
proof (intro conjI impI)
  assume "data s = []"
  then show "Pop s = Panics NoItemToPop" by (simp add: Pop_def)
next
  have w: "siv_inv s" using assms by (rule siv_inv_reachable)
  assume ne: "data s \<noteq> []"
  then obtain n where n: "length (data s) = Suc n"
    by (cases "data s") auto
  have e: "length (data s) - 1 = n" using n by simp
  note f = last_handle_resolves [OF w n]
  have r: "Remove s (meta s ! n) = Returns (Inr (last (data s)), remove_at s n)"
    using ne n by (simp add: Remove_inv [OF w] f last_conv_nth)
  have m: "in_range (int (length (data s)) - 1) (meta s)"
    using n siv_inv_lens [OF w] by (auto simp: in_range_def)
  show "findID s (meta s ! (length (data s) - 1)) = Returns (Inr (int (length (data s) - 1)))"
    unfolding e by (rule f)
  show "Remove s (meta s ! (length (data s) - 1)) =
      Returns (Inr (last (data s)), remove_at s (length (data s) - 1))"
    unfolding e by (rule r)
  show "Pop s = Returns (Some (last (data s)), remove_at s (length (data s) - 1))"
    unfolding e using m ne by (simp add: Pop_def n r)
  show "data (remove_at s (length (data s) - 1)) = butlast (data s)"
    unfolding e by (simp add: remove_at_last [OF w n])
qed

section \<open>Parity of generations\<close>





section \<open>Lengths and the freed tail\<close>

lemma Remove_lengths:
  assumes "Remove s h = Returns (r, s')"
  shows "length (indices s') = length (indices s)" "length (meta s') = length (meta s)"
    "int (length (data s')) = int (length (data s)) - (case r of Inl e \<Rightarrow> 0 | Inr x \<Rightarrow> 1)"
  using assms
  by (auto simp: Remove_def Let_def in_range_def of_nat_diff Suc_le_eq
      split: outcome.splits sum.splits if_splits)

lemma step_surplus:
  assumes "step c s = Some s'"
  shows "int (length (indices s')) - int (length (data s')) =
         int (length (indices s)) - int (length (data s)) + freed_delta c s"
proof (cases c)
  case (CPut v)
  with assms show ?thesis by (auto simp: Put_def Let_def)
next
  case (CGet h)
  with assms show ?thesis by (auto split: outcome.splits)
next
  case (CSet h v)
  with assms show ?thesis
    by (auto simp: Set_def split: outcome.splits sum.splits if_splits)
next
  case (CRemove h)
  with assms obtain r where "Remove s h = Returns (r, s')"
    by (auto split: outcome.splits)
  with CRemove Remove_lengths [OF this] show ?thesis
    by (cases r) auto
next
  case CPop
  with assms obtain r where p: "Pop s = Returns (r, s')"
    by (auto split: outcome.splits)
  then obtain q where q: "Remove s (meta s ! (length (data s) - 1)) = Returns (q, s')"
    and rq: "r = (case q of Inl e \<Rightarrow> None | Inr x \<Rightarrow> Some x)"
    by (auto simp: Pop_def split: if_splits outcome.splits sum.splits prod.splits)
  with CPop p Remove_lengths [OF q] show ?thesis
    by (cases q) auto
next
  case CIter2
  with assms show ?thesis by (auto split: outcome.splits)
qed (use assms in auto)

text \<open>No call shortens \<open>indices\<close> or \<open>meta\<close>.\<close>

lemma step_lengths:
  assumes "step c s = Some s'"
  shows "length (indices s) \<le> length (indices s')" "length (meta s) \<le> length (meta s')"
proof -
  have "length (indices s) \<le> length (indices s') \<and> length (meta s) \<le> length (meta s')"
  proof (cases c)
    case (CPut v)
    with assms show ?thesis by (auto simp: Put_def Let_def)
  next
    case (CGet h)
    with assms show ?thesis by (auto split: outcome.splits)
  next
    case (CSet h v)
    with assms show ?thesis
      by (auto simp: Set_def split: outcome.splits sum.splits if_splits)
  next
    case (CRemove h)
    with assms obtain r where "Remove s h = Returns (r, s')"
      by (auto split: outcome.splits)
    from Remove_lengths(1,2) [OF this] show ?thesis by simp
  next
    case CPop
    with assms obtain r where "Pop s = Returns (r, s')"
      by (auto split: outcome.splits)
    then obtain q where "Remove s (meta s ! (length (data s) - 1)) = Returns (q, s')"
      by (auto simp: Pop_def split: if_splits outcome.splits sum.splits prod.splits)
    from Remove_lengths(1,2) [OF this] show ?thesis by simp
  next
    case CIter2
    with assms show ?thesis by (auto split: outcome.splits)
  qed (use assms in auto)
  then show "length (indices s) \<le> length (indices s')" "length (meta s) \<le> length (meta s')"
    by simp_all
qed

lemma run_meta_length:
  "run cs s = Some s' \<Longrightarrow> length (meta s) \<le> length (meta s')"
proof (induction cs arbitrary: s)
  case Nil
  then show ?case by simp
next
  case (Cons c cs)
  then obtain t where t: "step c s = Some t" and r: "run cs t = Some s'"
    by (auto split: option.splits)
  from step_lengths(2) [OF t] Cons.IH [OF r] show ?case by simp
qed

lemma run_surplus:
  "run cs s = Some s' \<Longrightarrow>
   int (length (indices s')) - int (length (data s')) =
   int (length (indices s)) - int (length (data s)) + freed_count cs s"
proof (induction cs arbitrary: s)
  case Nil
  then show ?case by simp
next
  case (Cons c cs)
  then obtain t where t: "step c s = Some t" and r: "run cs t = Some s'"
    by (auto split: option.splits)
  from Cons.IH [OF r] step_surplus [OF t] t show ?case by simp
qed

lemma filter_from:
  assumes "k \<le> length xs" and "\<And>i. i < length xs \<Longrightarrow> P (xs ! i) \<longleftrightarrow> k \<le> i"
  shows "length (filter P xs) = length xs - k"
proof -
  have t: "filter P (take k xs) = []"
    using assms by (auto simp: filter_empty_conv in_set_conv_nth)
  have d: "filter P (drop k xs) = drop k xs"
    using assms by (auto simp: filter_id_conv in_set_conv_nth)
  have "filter P xs = filter P (take k xs @ drop k xs)" by simp
  also have "\<dots> = drop k xs" unfolding filter_append t d by simp
  finally show ?thesis by simp
qed

lemma freed_slots_odd:
  assumes w: "siv_inv s"
  shows "length (filter (\<lambda>m. odd (vid m)) (meta s)) = length (meta s) - length (data s)"
  using siv_inv_lens [OF w] siv_inv_parity [OF w]
  by (intro filter_from) auto

text \<open>
  Claim C2. In every state reached from the empty container by any calls: for every
  position \<open>p\<close> of \<open>data\<close>, \<open>indices[meta[p].rid] = p\<close>; \<open>indices\<close> is at least as long as
  \<open>data\<close>, and the surplus is the number of slots freed and not yet reused, counted
  along the run (\<open>freed_count\<close>) and counted in the state (the metadata entries with an
  odd generation).
\<close>

theorem indirection_invariant:
  assumes "run cs SIV_zero = Some s"
  shows "(\<forall>p < length (data s).
            in_range (rid (meta s ! p)) (indices s) \<and> indices s ! nat (rid (meta s ! p)) = int p) \<and>
         length (data s) \<le> length (indices s) \<and>
         int (length (indices s)) - int (length (data s)) = freed_count cs SIV_zero \<and>
         length (indices s) - length (data s) = length (filter (\<lambda>m. odd (vid m)) (meta s))"
proof -
  have w: "siv_inv s" using assms by (rule siv_inv_reachable)
  have a: "\<forall>p < length (data s).
            in_range (rid (meta s ! p)) (indices s) \<and> indices s ! nat (rid (meta s ! p)) = int p"
    using w by (auto simp: siv_inv_def)
  have b: "int (length (indices s)) - int (length (data s)) = freed_count cs SIV_zero"
    using run_surplus [OF assms] by (simp add: SIV_zero_def)
  show ?thesis
    using a b siv_inv_lens [OF w] freed_slots_odd [OF w] by simp
qed

text \<open>
  Claim C3, as the code has it. In every state reached from the empty container
  \<open>data\<close> is at most as long as \<open>meta\<close>, \<open>meta\<close> is as long as \<open>indices\<close>, and
  \<open>meta\<close> is longer than \<open>data\<close> by the number of slots freed and not yet reused;
  and \<open>meta\<close> is never shortened: no call, and no run of calls, from such a state
  leaves \<open>meta\<close> shorter than it was.
\<close>

theorem metadata_never_shrinks:
  assumes "run cs SIV_zero = Some s"
  shows "length (data s) \<le> length (meta s) \<and> length (meta s) = length (indices s) \<and>
         int (length (meta s)) = int (length (data s)) + freed_count cs SIV_zero \<and>
         (\<forall>c s'. step c s = Some s' \<longrightarrow> length (meta s) \<le> length (meta s')) \<and>
         (\<forall>cs' s'. run cs' s = Some s' \<longrightarrow> length (meta s) \<le> length (meta s'))"
proof -
  have w: "siv_inv s" using assms by (rule siv_inv_reachable)
  have a: "length (data s) \<le> length (meta s) \<and> length (meta s) = length (indices s) \<and>
      int (length (meta s)) = int (length (data s)) + freed_count cs SIV_zero"
    using run_surplus [OF assms] siv_inv_lens [OF w] by (simp add: SIV_zero_def)
  have b: "\<forall>c s'. step c s = Some s' \<longrightarrow> length (meta s) \<le> length (meta s')"
    using step_lengths(2) by blast
  have c: "\<forall>cs' s'. run cs' s = Some s' \<longrightarrow> length (meta s) \<le> length (meta s')"
    using run_meta_length by blast
  show ?thesis using a b c by blast
qed


text \<open>
  C8 on the empty container and on the state after inserting 10 and 20.
\<close>

theorem pop_is_remove_of_last_witness:
  "run [] SIV_zero = Some (SIV_zero :: int SIV) \<and> data (SIV_zero :: int SIV) = [] \<and>
   Pop (SIV_zero :: int SIV) = Panics NoItemToPop \<and>
   run [CPut 10, CPut 20] SIV_zero = Some scn_s2 \<and> data scn_s2 \<noteq> [] \<and>
   Remove scn_s2 scn_h2 = Returns (Inr 20, remove_at scn_s2 1) \<and>
   Pop scn_s2 = Returns (Some 20, remove_at scn_s2 1)"
proof -
  have z: "run [] SIV_zero = Some (SIV_zero :: int SIV)" by simp
  have e: "data (SIV_zero :: int SIV) = []" by (simp add: SIV_zero_def)
  have d: "data scn_s2 = [10, 20]" "meta scn_s2 ! 1 = scn_h2"
    by (simp_all add: scn_defs)
  from pop_is_remove_of_last [OF z] e
  have a: "Pop (SIV_zero :: int SIV) = Panics NoItemToPop" by blast
  from pop_is_remove_of_last [OF run_scn_s2] d
  have b: "Remove scn_s2 scn_h2 = Returns (Inr 20, remove_at scn_s2 1) \<and>
      Pop scn_s2 = Returns (Some 20, remove_at scn_s2 1)" by simp
  show ?thesis using z e a b run_scn_s2 d by simp
qed


text \<open>
  C2 on the state of the test after the removal of its second handle.
\<close>

theorem indirection_invariant_witness:
  "run [CPut 10, CPut 20, CPut 30, CRemove scn_h2] SIV_zero = Some scn_s4 \<and>
   (1 :: nat) < length (data scn_s4) \<and>
   in_range (rid (meta scn_s4 ! 1)) (indices scn_s4) \<and>
   indices scn_s4 ! nat (rid (meta scn_s4 ! 1)) = 1 \<and>
   length (data scn_s4) \<le> length (indices scn_s4) \<and>
   freed_count [CPut (10 :: int), CPut 20, CPut 30, CRemove scn_h2] SIV_zero = 1 \<and>
   length (filter (\<lambda>m. odd (vid m)) (meta scn_s4)) = 1"
proof -
  note t = indirection_invariant [OF run_scn_s4]
  have l: "(1 :: nat) < length (data scn_s4)" "length (indices scn_s4) = 3"
    "length (data scn_s4) = 2"
    by (simp_all add: scn_defs)
  from t l(1) have a: "in_range (rid (meta scn_s4 ! 1)) (indices scn_s4) \<and>
      indices scn_s4 ! nat (rid (meta scn_s4 ! 1)) = int 1" by blast
  from t have b: "length (data scn_s4) \<le> length (indices scn_s4)" by blast
  from t have "int (length (indices scn_s4)) - int (length (data scn_s4)) =
      freed_count [CPut (10 :: int), CPut 20, CPut 30, CRemove scn_h2] SIV_zero" by blast
  then have c: "freed_count [CPut (10 :: int), CPut 20, CPut 30, CRemove scn_h2] SIV_zero = 1"
    by (simp add: l)
  from t have "length (indices scn_s4) - length (data scn_s4) =
      length (filter (\<lambda>m. odd (vid m)) (meta scn_s4))" by blast
  then have d: "length (filter (\<lambda>m. odd (vid m)) (meta scn_s4)) = 1"
    by (simp add: l)
  show ?thesis using run_scn_s4 l a b c d by simp
qed

text \<open>
  The amended C3 on the state of the test after the removal of its second handle.
\<close>

theorem metadata_never_shrinks_witness:
  "run [CPut 10, CPut 20, CPut 30, CRemove scn_h2] SIV_zero = Some scn_s4 \<and>
   length (data scn_s4) \<le> length (meta scn_s4) \<and>
   length (meta scn_s4) = length (indices scn_s4) \<and>
   int (length (meta scn_s4)) = int (length (data scn_s4)) +
     freed_count [CPut (10 :: int), CPut 20, CPut 30, CRemove scn_h2] SIV_zero \<and>
   step CPop scn_s4 = Some scn_s4_popped \<and>
   length (meta scn_s4) \<le> length (meta scn_s4_popped) \<and>
   run [CPop, CPut 50] scn_s4 = Some scn_s4_refilled \<and>
   length (meta scn_s4) \<le> length (meta scn_s4_refilled)"
proof -
  note t = metadata_never_shrinks [OF run_scn_s4]
  have p: "step CPop scn_s4 = Some scn_s4_popped"
    by (simp add: scn_defs scn_s4_popped_def op_defs)
  have q: "run [CPop, CPut 50] scn_s4 = Some scn_s4_refilled"
    by (simp add: scn_defs scn_s4_refilled_def op_defs)
  from t p have a: "length (meta scn_s4) \<le> length (meta scn_s4_popped)" by blast
  from t q have b: "length (meta scn_s4) \<le> length (meta scn_s4_refilled)" by blast
  show ?thesis using t run_scn_s4 p q a b by blast
qed

text \<open>
  Claim C3 as stated fails: after one insertion and one \<open>Pop\<close> there is no item and one
  metadata entry.
\<close>

theorem metadata_longer_than_data:
  "run [CPut 10, CPop] SIV_zero = Some popped \<and> length (data popped) \<noteq> length (meta popped)"
  by (simp add: scn_defs op_defs)

section \<open>Signed generations\<close>

text \<open>An increment that does not lower the signed value raises it.\<close>

lemma sint_succ_greater:
  fixes v :: "64 word"
  assumes "\<not> sint (v + 1) < sint v"
  shows "sint v < sint (v + 1)"
proof -
  have "v + 1 \<noteq> v" by simp
  then have "sint (v + 1) \<noteq> sint v"
    using signed_word_eqI [of "v + 1" v] by blast
  with assms show ?thesis by simp
qed

section \<open>Removing beside a live handle\<close>

lemma Get_live:
  assumes w: "siv_inv s" and g: "Get s h = Returns (Inr x)"
  obtains p where "p < length (data s)" "meta s ! p = h" "data s ! p = x"
    "findID s h = Returns (Inr (int p))" "indices s ! nat (rid h) = int p"
proof -
  from g obtain i where f: "findID s h = Returns (Inr i)" and i: "in_range i (data s)"
    and x: "x = data s ! nat i"
    by (auto simp: Get_def split: outcome.splits sum.splits if_splits)
  from f have rb: "0 \<le> rid h" "nat (rid h) < length (meta s)"
    and ii: "i = indices s ! nat (rid h)" and v: "vid (meta s ! nat i) = vid h"
    using findID_inv [OF w, of h] siv_inv_lens [OF w] by (auto split: if_splits)
  define p where "p = nat i"
  have ip: "i = int p" using i by (simp add: p_def in_range_def)
  have pl: "p < length (data s)" using i by (simp add: p_def in_range_nat)
  have "rid (meta s ! p) = rid h"
    using siv_inv_ind(3) [OF w rb(2)] ii rb(1) by (simp add: p_def)
  moreover have "vid (meta s ! p) = vid h" using v by (simp add: p_def)
  ultimately have m: "meta s ! p = h" by simp
  have d: "data s ! p = x" using x by (simp add: p_def)
  have f': "findID s h = Returns (Inr (int p))" using f unfolding ip .
  have ix: "indices s ! nat (rid h) = int p" using ii unfolding ip by simp
  show ?thesis using that [OF pl m d f' ix] .
qed

lemma findID_at:
  assumes w: "siv_inv s" and p: "p < length (meta s)"
  shows "findID s (meta s ! p) = Returns (Inr (int p))"
  using siv_inv_meta [OF w p] siv_inv_lens [OF w]
  by (simp add: findID_inv [OF w])

lemma Get_at:
  assumes w: "siv_inv s" and p: "p < length (data s)"
  shows "Get s (meta s ! p) = Returns (Inr (data s ! p))"
proof -
  have "p < length (meta s)" using p siv_inv_lens [OF w] by simp
  from findID_at [OF w this] p show ?thesis
    by (simp add: Get_def in_range_def)
qed

text \<open>
  Claim C5. In every state reached from the empty container, for handles \<open>a\<close> and \<open>b\<close>
  that differ and on both of which \<open>Get\<close> succeeds: \<open>Remove(a)\<close> succeeds with the item
  of \<open>a\<close>, and in the state it leaves \<open>Get(b)\<close> returns the item it returned before;
  \<open>b\<close> then resolves to the old position of \<open>a\<close> when its item was the last one, and
  to its own position otherwise.
\<close>

theorem swap_correctness:
  assumes r: "run cs SIV_zero = Some s"
    and a: "Get s a = Returns (Inr va)" and b: "Get s b = Returns (Inr vb)" and ne: "a \<noteq> b"
  shows "\<exists>s'. Remove s a = Returns (Inr va, s') \<and> Get s' b = Returns (Inr vb) \<and>
           findID s' b = Returns (Inr
             (if indices s ! nat (rid b) = int (length (data s)) - 1
              then indices s ! nat (rid a) else indices s ! nat (rid b)))"
proof -
  have w: "siv_inv s" using r by (rule siv_inv_reachable)
  from Get_live [OF w a] obtain pa where pa: "pa < length (data s)" "meta s ! pa = a"
    "data s ! pa = va" "findID s a = Returns (Inr (int pa))" "indices s ! nat (rid a) = int pa"
    by blast
  from Get_live [OF w b] obtain pb where pb: "pb < length (data s)" "meta s ! pb = b"
    "data s ! pb = vb" "findID s b = Returns (Inr (int pb))" "indices s ! nat (rid b) = int pb"
    by blast
  define n where "n = length (data s) - 1"
  define s' where "s' = remove_at s pa"
  note parts = remove_at_parts [OF w pa(1), folded n_def s'_def]
  have w': "siv_inv s'" unfolding s'_def using w pa(1) by (rule siv_inv_remove_at)
  have n: "pa \<le> n" "pb \<le> n" "n < length (meta s)" "int (length (data s)) - 1 = int n"
    using pa(1) pb(1) siv_inv_lens [OF w] by (auto simp: n_def)
  have d: "pa \<noteq> pb" using ne pa(2) pb(2) by auto
  have rm: "Remove s a = Returns (Inr va, s')"
    using pa by (simp add: Remove_inv [OF w] s'_def)
  define q where "q = (if pb = n then pa else pb)"
  have q: "q < n" using d n by (auto simp: q_def)
  have qm: "q < length (meta s)" using q n by simp
  have pm: "pa < length (meta s)" "pb < length (meta s)"
    using n by simp_all
  have mq: "meta s' ! q = b"
    using d n pb(2) pm by (auto simp: parts(5) q_def)
  have dq: "data s' ! q = vb"
    using d n pb(3) by (auto simp: parts(6) q_def)
  have ql: "q < length (data s')" "q < length (meta s')"
    using q qm by (simp_all add: parts)
  have g: "Get s' b = Returns (Inr vb)"
    using Get_at [OF w' ql(1)] by (simp add: mq dq)
  have f: "findID s' b = Returns (Inr (int q))"
    using findID_at [OF w' ql(2)] by (simp add: mq)
  have e: "(if indices s ! nat (rid b) = int (length (data s)) - 1
              then indices s ! nat (rid a) else indices s ! nat (rid b)) = int q"
    by (simp add: q_def pa(5) pb(5) n(4))
  show ?thesis
    unfolding e using rm g f by (intro exI [of _ s']) simp
qed

text \<open>
  C5 on the state after the three insertions of the test, removing the first handle
  while the third, whose item is the last and is relocated, is read.
\<close>

theorem swap_correctness_witness:
  "run [CPut 10, CPut 20, CPut 30] SIV_zero = Some scn_s3 \<and>
   Get scn_s3 scn_h1 = Returns (Inr 10) \<and> Get scn_s3 scn_h3 = Returns (Inr 30) \<and>
   scn_h1 \<noteq> scn_h3 \<and>
   (\<exists>s'. Remove scn_s3 scn_h1 = Returns (Inr 10, s') \<and> Get s' scn_h3 = Returns (Inr 30) \<and>
      findID s' scn_h3 = Returns (Inr 0))"
proof -
  have a: "Get scn_s3 scn_h1 = Returns (Inr 10)"
    and b: "Get scn_s3 scn_h3 = Returns (Inr 30)"
    and ne: "scn_h1 \<noteq> scn_h3"
    by (simp_all add: scn_defs op_defs)
  have e: "indices scn_s3 ! nat (rid scn_h3) = int (length (data scn_s3)) - 1"
    "indices scn_s3 ! nat (rid scn_h1) = 0"
    by (simp_all add: scn_defs)
  from swap_correctness [OF run_scn_s3 a b ne]
  have "\<exists>s'. Remove scn_s3 scn_h1 = Returns (Inr 10, s') \<and> Get s' scn_h3 = Returns (Inr 30) \<and>
      findID s' scn_h3 = Returns (Inr 0)"
    unfolding e by simp
  with run_scn_s3 a b ne show ?thesis by blast
qed

section \<open>Expiry\<close>

lemma not_wrapped:
  assumes "\<not> wrapped s s'" and "in_range r (indices s)"
  shows "sint (gen s r) \<le> sint (gen s' r)"
proof -
  from assms(2) have n: "nat r < length (indices s)" and r: "int (nat r) = r"
    by (simp_all add: in_range_nat)
  from assms(1) have "\<forall>k < length (indices s). \<not> sint (gen s' (int k)) < sint (gen s (int k))"
    by (auto simp: wrapped_def list_ex_iff)
  with n have "\<not> sint (gen s' (int (nat r))) < sint (gen s (int (nat r)))"
    by blast
  then show ?thesis unfolding r by simp
qed

lemma run_gen_mono:
  "run cs s = Some s' \<Longrightarrow> nowrap cs s \<Longrightarrow> in_range r (indices s) \<Longrightarrow>
   in_range r (indices s') \<and> sint (gen s r) \<le> sint (gen s' r)"
proof (induction cs arbitrary: s)
  case Nil
  then show ?case by simp
next
  case (Cons c cs)
  from Cons.prems(1) obtain t where t: "step c s = Some t" and r: "run cs t = Some s'"
    by (auto split: option.splits)
  from Cons.prems(2) t have nw: "\<not> wrapped s t" "nowrap cs t" by simp_all
  have rt: "in_range r (indices t)"
    using Cons.prems(3) step_lengths(1) [OF t] by (simp add: in_range_def)
  from Cons.IH [OF r nw(2) rt] not_wrapped [OF nw(1) Cons.prems(3)] show ?case by simp
qed

text \<open>After a successful \<open>Remove\<close> the generation stored for the handle's id is one more.\<close>

lemma Remove_bumps:
  assumes w: "siv_inv s" and rm: "Remove s h = Returns (Inr x, s')"
  shows "in_range (rid h) (indices s)" "gen s (rid h) = vid h" "gen s' (rid h) = vid h + 1"
proof -
  from rm obtain i where f: "findID s h = Returns (Inr i)" and il: "nat i < length (data s)"
    and s': "s' = remove_at s (nat i)"
    by (auto simp: Remove_inv [OF w] split: outcome.splits sum.splits if_splits)
  from f have rb: "0 \<le> rid h" "nat (rid h) < length (meta s)"
    and ii: "i = indices s ! nat (rid h)" and v: "vid (meta s ! nat i) = vid h"
    using findID_inv [OF w, of h] siv_inv_lens [OF w] by (auto split: if_splits)
  show "in_range (rid h) (indices s)"
    using rb siv_inv_lens [OF w] by (simp add: in_range_nat)
  show "gen s (rid h) = vid h"
    using v ii by (simp add: gen_def)
  define p where "p = nat i"
  define n where "n = length (data s) - 1"
  have pl: "p < length (data s)" using il by (simp add: p_def)
  note parts = remove_at_parts [OF w pl, folded n_def]
  have n: "n < length (meta s)" "p < length (meta s)"
    using pl siv_inv_lens [OF w] by (auto simp: n_def)
  have r1: "nat (rid (meta s ! p)) = nat (rid h)"
    using siv_inv_ind(3) [OF w rb(2)] ii rb(1) by (simp add: p_def)
  have r2: "indices s ! nat (rid (meta s ! n)) = int n"
    using siv_inv_meta(3) [OF w n(1)] .
  have i0: "0 \<le> i"
    unfolding ii by (rule siv_inv_ind(1) [OF w rb(2)])
  have pi: "int p = i"
    using i0 by (simp add: p_def)
  have ip: "indices s ! nat (rid h) = int p"
    unfolding pi by (rule ii [symmetric])
  have ix: "indices (remove_at s p) ! nat (rid h) =
      (if nat (rid h) = nat (rid (meta s ! n)) then int p
       else if nat (rid h) = nat (rid (meta s ! p)) then int n
       else indices s ! nat (rid h))"
    by (rule parts(4) [OF rb(2)])
  have "indices (remove_at s p) ! nat (rid h) = int n"
  proof (cases "nat (rid h) = nat (rid (meta s ! n))")
    case True
    have "int p = indices s ! nat (rid (meta s ! n))"
      unfolding True [symmetric] by (rule ip [symmetric])
    also have "\<dots> = int n" by (rule r2)
    finally show ?thesis unfolding ix using True by simp
  next
    case False
    then show ?thesis unfolding ix r1 by simp
  qed
  moreover have "meta (remove_at s p) ! n = bump (meta s ! p)"
    using n by (simp add: parts(5))
  ultimately show "gen s' (rid h) = vid h + 1"
    using v by (simp add: gen_def s' p_def [symmetric])
qed

text \<open>
  Claim C4. In every state reached from the empty container, once \<open>Remove(h)\<close> has
  succeeded, then after every further run of calls \<open>findID\<close>, \<open>Get\<close>, \<open>Set\<close> and
  \<open>Remove\<close> on \<open>h\<close> return \<open>ErrExpired\<close> and leave the state as it is, provided no
  counter wraps during the removal and the run.
\<close>

theorem expiry:
  assumes "run cs0 SIV_zero = Some s"
    and "Remove s h = Returns (Inr x, s1)"
    and "run cs s1 = Some s2"
    and "nowrap (CRemove h # cs) s"
  shows "findID s2 h = Returns (Inl ErrExpired) \<and>
         Get s2 h = Returns (Inl ErrExpired) \<and>
         (\<forall>v. Set s2 h v = Returns (Inl ErrExpired, s2)) \<and>
         Remove s2 h = Returns (Inl ErrExpired, s2)"
proof -
  have w: "siv_inv s" using assms(1) by (rule siv_inv_reachable)
  have w1: "siv_inv s1" using w assms(2) by (rule siv_inv_Remove)
  have w2: "siv_inv s2" using w1 assms(3) by (rule siv_inv_run)
  note b = Remove_bumps [OF w assms(2)]
  from assms(2,4) have nw: "\<not> wrapped s s1" "nowrap cs s1" by simp_all
  have r1: "in_range (rid h) (indices s1)"
    using b(1) Remove_lengths(1) [OF assms(2)] by (simp add: in_range_def)
  have "\<not> sint (vid h + 1) < sint (vid h)"
    using not_wrapped [OF nw(1) b(1)] b(2,3) by simp
  then have "sint (vid h) < sint (vid h + 1)" by (rule sint_succ_greater)
  moreover have m: "in_range (rid h) (indices s2) \<and> sint (gen s1 (rid h)) \<le> sint (gen s2 (rid h))"
    using assms(3) nw(2) r1 by (rule run_gen_mono)
  ultimately have "sint (vid h) < sint (gen s2 (rid h))"
    using b(3) by simp
  then have ne: "gen s2 (rid h) \<noteq> vid h" by auto
  have f: "findID s2 h = Returns (Inl ErrExpired)"
    using m ne by (simp add: findID_inv [OF w2] in_range_def gen_def)
  show ?thesis
    by (simp add: f Get_def Set_def Remove_inv [OF w2])
qed

text \<open>
  C4 on the test's first handle: removed after two insertions, its slot reused by the
  next insertion.
\<close>

theorem expiry_witness:
  "run [CPut 10, CPut 20] SIV_zero = Some scn_s2 \<and>
   Remove scn_s2 scn_h1 = Returns (Inr 10, exp_s1) \<and>
   run [CPut 30, CLen] exp_s1 = Some exp_s2 \<and>
   nowrap [CRemove scn_h1, CPut 30, CLen] scn_s2 \<and>
   Get exp_s2 scn_h1 = Returns (Inl ErrExpired) \<and>
   Set exp_s2 scn_h1 7 = Returns (Inl ErrExpired, exp_s2) \<and>
   Remove exp_s2 scn_h1 = Returns (Inl ErrExpired, exp_s2)"
proof -
  have a: "Remove scn_s2 scn_h1 = Returns (Inr 10, exp_s1)"
    by (simp add: scn_defs exp_s1_def op_defs)
  have b: "run [CPut 30, CLen] exp_s1 = Some exp_s2"
    by (simp add: scn_defs exp_s1_def exp_s2_def op_defs)
  have c: "nowrap [CRemove scn_h1, CPut 30, CLen] scn_s2"
    by (simp add: a b [simplified] wrapped_def gen_def scn_defs exp_s1_def exp_s2_def op_defs)
  from expiry [OF run_scn_s2 a b c] run_scn_s2 a b c show ?thesis by blast
qed

section \<open>Reuse of freed slots\<close>

lemma run_append:
  "run (xs @ ys) s = (case run xs s of None \<Rightarrow> None | Some t \<Rightarrow> run ys t)"
  by (induction xs arbitrary: s) (auto split: option.splits)

lemma nowrap_append:
  "run xs s = Some t \<Longrightarrow> nowrap (xs @ ys) s \<longleftrightarrow> nowrap xs s \<and> nowrap ys t"
  by (induction xs arbitrary: s) (auto split: option.splits)

lemma handed_out_append:
  "run xs s = Some t \<Longrightarrow> handed_out (xs @ ys) s = handed_out xs s @ handed_out ys t"
  by (induction xs arbitrary: s) (auto split: option.splits)

lemma removes_run:
  "removes s hs = Some s' \<Longrightarrow> run (map CRemove hs) s = Some s'"
  by (induction hs arbitrary: s) (auto split: outcome.splits sum.splits prod.splits)

lemma puts_Cons:
  "puts s (v # vs) =
     (fst (Put s v) # fst (puts (snd (Put s v)) vs), snd (puts (snd (Put s v)) vs))"
  by (simp split: prod.splits)

lemma puts_run: "run (map CPut vs) s = Some (snd (puts s vs))"
  by (induction vs arbitrary: s) (simp_all add: puts_Cons del: puts.simps(2))

lemma puts_handed_out: "handed_out (map CPut vs) s = fst (puts s vs)"
  by (induction vs arbitrary: s) (simp_all add: puts_Cons del: puts.simps(2))

lemma puts_length: "length (fst (puts s vs)) = length vs"
  by (induction vs arbitrary: s) (simp_all add: puts_Cons del: puts.simps(2))

lemma puts_nth:
  "k < length vs \<Longrightarrow> fst (puts s vs) ! k = fst (Put (snd (puts s (take k vs))) (vs ! k))"
proof (induction vs arbitrary: s k)
  case Nil
  then show ?case by simp
next
  case (Cons v vs)
  show ?case
  proof (cases k)
    case 0
    then show ?thesis by (simp add: puts_Cons del: puts.simps(2))
  next
    case (Suc j)
    with Cons.prems have "j < length vs" by simp
    from Cons.IH [OF this, of "snd (Put s v)"] Suc show ?thesis
      by (simp add: puts_Cons del: puts.simps(2))
  qed
qed

text \<open>The freed tail of \<open>meta\<close> is a stack.\<close>

lemma Remove_success:
  assumes w: "siv_inv s" and rm: "Remove s h = Returns (Inr x, s')"
  obtains p where "p < length (data s)" "meta s ! p = h" "s' = remove_at s p"
proof -
  from rm obtain i where f: "findID s h = Returns (Inr i)" and il: "nat i < length (data s)"
    and s': "s' = remove_at s (nat i)" and x: "x = data s ! nat i"
    by (auto simp: Remove_inv [OF w] split: outcome.splits sum.splits if_splits)
  have g: "Get s h = Returns (Inr x)"
  proof -
    from f have "0 \<le> i"
      using findID_inv [OF w, of h] siv_inv_ind(1) [OF w, of "nat (rid h)"] siv_inv_lens [OF w]
      by (auto split: if_splits)
    with il have "in_range i (data s)" by (simp add: in_range_nat)
    with f x show ?thesis by (simp add: Get_def)
  qed
  from Get_live [OF w g] obtain p where p: "p < length (data s)" "meta s ! p = h"
    "findID s h = Returns (Inr (int p))" by blast
  from p(3) f have "nat i = p" by simp
  with s' p that show ?thesis by blast
qed

lemma remove_at_tail:
  assumes w: "siv_inv s" and p: "p < length (data s)"
  shows "drop (length (data (remove_at s p))) (meta (remove_at s p)) =
           bump (meta s ! p) # drop (length (data s)) (meta s)"
proof -
  define n where "n = length (data s) - 1"
  note parts = remove_at_parts [OF w p, folded n_def]
  have n: "n < length (meta s)" "p \<le> n" "length (data s) = Suc n"
    using p siv_inv_lens [OF w] by (auto simp: n_def)
  have m: "meta (remove_at s p) = (meta s)[p := meta s ! n, n := bump (meta s ! p)]"
    unfolding remove_at_def Let_def n_def by simp
  have nl: "n < length (meta (remove_at s p))" using n by (simp add: parts)
  have "drop n (meta (remove_at s p)) =
      meta (remove_at s p) ! n # drop (Suc n) (meta (remove_at s p))"
    using nl by (simp add: Cons_nth_drop_Suc)
  also have "meta (remove_at s p) ! n = bump (meta s ! p)"
    using n by (simp add: parts(5))
  also have "drop (Suc n) (meta (remove_at s p)) = drop (Suc n) (meta s)"
    unfolding m using n by (simp add: drop_update_cancel)
  finally show ?thesis by (simp add: parts(1) n(3))
qed

lemma removes_tail:
  "siv_inv s \<Longrightarrow> removes s hs = Some s' \<Longrightarrow>
   siv_inv s' \<and>
   drop (length (data s')) (meta s') = map bump (rev hs) @ drop (length (data s)) (meta s)"
proof (induction hs arbitrary: s)
  case Nil
  then show ?case by simp
next
  case (Cons h hs)
  from Cons.prems(2) obtain x t where rm: "Remove s h = Returns (Inr x, t)"
    and rest: "removes t hs = Some s'"
    by (auto split: outcome.splits sum.splits prod.splits)
  from Remove_success [OF Cons.prems(1) rm] obtain p where p: "p < length (data s)"
    "meta s ! p = h" "t = remove_at s p" by blast
  have wt: "siv_inv t" using Cons.prems(1) rm by (rule siv_inv_Remove)
  have "drop (length (data t)) (meta t) = bump h # drop (length (data s)) (meta s)"
    using remove_at_tail [OF Cons.prems(1) p(1)] p(2,3) by simp
  with Cons.IH [OF wt rest] show ?case by simp
qed

lemma puts_reuse:
  "drop (length (data s)) (meta s) = ms @ rest \<Longrightarrow> length vs \<le> length ms \<Longrightarrow>
   fst (puts s vs) = map bump (take (length vs) ms)"
proof (induction vs arbitrary: s ms)
  case Nil
  then show ?case by simp
next
  case (Cons v vs)
  from Cons.prems(2) obtain m ms' where ms: "ms = m # ms'"
    by (cases ms) auto
  define k where "k = length (data s)"
  have d: "drop k (meta s) = m # (ms' @ rest)"
    using Cons.prems(1) by (simp add: ms k_def)
  have kl: "k < length (meta s)"
  proof (rule ccontr)
    assume "\<not> k < length (meta s)"
    then have "drop k (meta s) = []" by simp
    with d show False by simp
  qed
  from d have "meta s ! k # drop (Suc k) (meta s) = m # (ms' @ rest)"
    using kl by (simp add: Cons_nth_drop_Suc)
  then have mk: "meta s ! k = m" and dk: "drop (Suc k) (meta s) = ms' @ rest"
    by simp_all
  have P: "Put s v = (bump m, s\<lparr>data := data s @ [v], meta := (meta s)[k := bump m]\<rparr>)"
    using kl mk by (simp add: Put_def Let_def k_def)
  define s' where "s' = s\<lparr>data := data s @ [v], meta := (meta s)[k := bump m]\<rparr>"
  have "drop (length (data s')) (meta s') = ms' @ rest"
    using dk by (simp add: s'_def k_def [symmetric] drop_update_cancel)
  moreover have "length vs \<le> length ms'"
    using Cons.prems(2) by (simp add: ms)
  ultimately have "fst (puts s' vs) = map bump (take (length vs) ms')"
    by (rule Cons.IH)
  then show ?case
    by (simp add: puts_Cons P s'_def [symmetric] ms del: puts.simps(2))
qed

lemma handles_of_current:
  assumes w: "siv_inv s" and st: "step c s = Some s'" and g: "g \<in> set (handles_of c s)"
  shows "in_range (rid g) (indices s') \<and> gen s' (rid g) = vid g"
proof (cases c)
  case (CPut v)
  with st g have s': "s' = snd (Put s v)" and gh: "g = fst (Put s v)" by simp_all
  note p = Put_parts [OF w, of v]
  show ?thesis
    unfolding s' gh gen_def using p(2,3,4) by simp
next
  case CIter2
  with st have s': "s' = s" by (auto split: outcome.splits)
  from CIter2 g obtain i where i: "i < length (data s)" and gi: "g = meta s ! i"
    by (auto simp: Iter2_def split: if_splits)
  have im: "i < length (meta s)" using i siv_inv_lens [OF w] by simp
  show ?thesis
    unfolding s' gi gen_def
    using siv_inv_meta [OF w im] siv_inv_lens [OF w] by (simp add: in_range_nat)
qed (use g in simp_all)

lemma step_not_newer:
  assumes "step c s = Some s'" and "\<not> wrapped s s'" and "not_newer s g"
  shows "not_newer s' g"
proof -
  from assms(3) have r: "in_range (rid g) (indices s)"
    and v: "sint (vid g) \<le> sint (gen s (rid g))"
    by (simp_all add: not_newer_def)
  have "in_range (rid g) (indices s')"
    using r step_lengths(1) [OF assms(1)] by (simp add: in_range_def)
  moreover have "sint (vid g) \<le> sint (gen s' (rid g))"
    using v not_wrapped [OF assms(2) r] by simp
  ultimately show ?thesis by (simp add: not_newer_def)
qed

lemma run_not_newer:
  "siv_inv s \<Longrightarrow> run cs s = Some s' \<Longrightarrow> nowrap cs s \<Longrightarrow> (\<forall>g \<in> G. not_newer s g) \<Longrightarrow>
   (\<forall>g \<in> G \<union> set (handed_out cs s). not_newer s' g)"
proof (induction cs arbitrary: s G)
  case Nil
  then show ?case by simp
next
  case (Cons c cs)
  from Cons.prems(2) obtain t where t: "step c s = Some t" and r: "run cs t = Some s'"
    by (auto split: option.splits)
  from Cons.prems(3) t have nw: "\<not> wrapped s t" "nowrap cs t" by simp_all
  have wt: "siv_inv t" using Cons.prems(1) t by (rule siv_inv_step)
  have "\<forall>g \<in> G \<union> set (handles_of c s). not_newer t g"
  proof
    fix g assume "g \<in> G \<union> set (handles_of c s)"
    then show "not_newer t g"
    proof
      assume "g \<in> G"
      with Cons.prems(4) have "not_newer s g" by blast
      with t nw(1) show ?thesis by (rule step_not_newer)
    next
      assume "g \<in> set (handles_of c s)"
      from handles_of_current [OF Cons.prems(1) t this] show ?thesis
        by (simp add: not_newer_def)
    qed
  qed
  from Cons.IH [OF wt r nw(2) this] t show ?case by auto
qed

lemma Put_newer:
  assumes w: "siv_inv s" and nw: "\<not> wrapped s (snd (Put s v))" and g: "not_newer s g"
    and r: "rid g = rid (fst (Put s v))"
  shows "sint (vid g) < sint (vid (fst (Put s v)))"
proof (cases "length (meta s) > length (data s)")
  case True
  define k where "k = length (data s)"
  define m where "m = meta s ! k"
  have km: "k < length (meta s)" using True by (simp add: k_def)
  have h: "fst (Put s v) = bump m"
    using True by (simp add: Put_def Let_def k_def m_def)
  note mk = siv_inv_meta [OF w km, folded m_def]
  have ir: "in_range (rid m) (indices s)"
    using mk siv_inv_lens [OF w] by (simp add: in_range_nat)
  have g0: "gen s (rid m) = vid m"
    using mk(3) by (simp add: gen_def m_def)
  have st: "step (CPut v) s = Some (snd (Put s v))" by simp
  have "fst (Put s v) \<in> set (handles_of (CPut v) s)" by simp
  from handles_of_current [OF w st this] have g1: "gen (snd (Put s v)) (rid m) = vid m + 1"
    by (simp add: h)
  have "\<not> sint (vid m + 1) < sint (vid m)"
    using not_wrapped [OF nw ir] g0 g1 by simp
  then have "sint (vid m) < sint (vid m + 1)" by (rule sint_succ_greater)
  moreover have "sint (vid g) \<le> sint (vid m)"
    using g r g0 by (simp add: not_newer_def h)
  ultimately show ?thesis by (simp add: h)
next
  case False
  then have "length (indices s) = length (data s)"
    using siv_inv_lens [OF w] by simp
  moreover have "rid (fst (Put s v)) = int (length (data s))"
    using False by (simp add: Put_def Let_def)
  ultimately have "\<not> in_range (rid g) (indices s)"
    using r by (simp add: in_range_def)
  with g show ?thesis by (simp add: not_newer_def)
qed

lemma bump_bump: "bump (bump h) = \<lparr>rid = rid h, vid = vid h + 2\<rparr>"
  by (simp add: bump_def)

text \<open>
  Claim C6, as the code has it. In a state reached from the empty container, after the
  handles \<open>hs\<close> have been removed one after the other, inserting at most as many items
  returns, in order, the handles of \<open>hs\<close> from the last removed to the first, each with
  its reference id and a generation two more. When no counter wraps during the whole
  run, the generation of each of these handles is, as a signed \<open>int\<close>, greater than
  that of every handle with the same reference id given out before it.
\<close>

theorem reuse_stacking:
  assumes c: "run cs SIV_zero = Some s0"
    and rm: "removes s0 hs = Some s1"
    and le: "length vs \<le> length hs"
  shows "fst (puts s1 vs) =
           map (\<lambda>h. \<lparr>rid = rid h, vid = vid h + 2\<rparr>) (take (length vs) (rev hs)) \<and>
         (nowrap (cs @ map CRemove hs @ map CPut vs) SIV_zero \<longrightarrow>
          (\<forall>k < length vs.
             \<forall>g \<in> set (handed_out (cs @ map CRemove hs @ map CPut (take k vs)) SIV_zero).
               rid g = rid (fst (puts s1 vs) ! k) \<longrightarrow>
               sint (vid g) < sint (vid (fst (puts s1 vs) ! k))))"
proof (intro conjI allI impI ballI)
  have w0: "siv_inv s0" using c by (rule siv_inv_reachable)
  from removes_tail [OF w0 rm]
  have w1: "siv_inv s1"
    and tl: "drop (length (data s1)) (meta s1) =
      map bump (rev hs) @ drop (length (data s0)) (meta s0)"
    by simp_all
  have "length vs \<le> length (map bump (rev hs))" using le by simp
  with tl have "fst (puts s1 vs) = map bump (take (length vs) (map bump (rev hs)))"
    by (rule puts_reuse)
  then show "fst (puts s1 vs) =
      map (\<lambda>h. \<lparr>rid = rid h, vid = vid h + 2\<rparr>) (take (length vs) (rev hs))"
    by (simp add: take_map bump_bump comp_def)
next
  fix k g
  assume nw: "nowrap (cs @ map CRemove hs @ map CPut vs) SIV_zero"
    and k: "k < length vs"
    and g: "g \<in> set (handed_out (cs @ map CRemove hs @ map CPut (take k vs)) SIV_zero)"
    and r: "rid g = rid (fst (puts s1 vs) ! k)"
  define pre where "pre = cs @ map CRemove hs @ map CPut (take k vs)"
  define t where "t = snd (puts s1 (take k vs))"
  have rp: "run pre SIV_zero = Some t"
    by (simp add: pre_def t_def run_append c removes_run [OF rm] puts_run)
  have wt: "siv_inv t" using rp by (rule siv_inv_reachable)
  have vs: "vs = take k vs @ vs ! k # drop (Suc k) vs"
    using k by (simp add: id_take_nth_drop)
  have "cs @ map CRemove hs @ map CPut vs =
      pre @ CPut (vs ! k) # map CPut (drop (Suc k) vs)"
    unfolding pre_def by (subst vs) simp
  with nw have "nowrap (pre @ CPut (vs ! k) # map CPut (drop (Suc k) vs)) SIV_zero"
    by simp
  then have np: "nowrap pre SIV_zero" and nk: "\<not> wrapped t (snd (Put t (vs ! k)))"
    by (simp_all add: nowrap_append [OF rp])
  have "\<forall>g \<in> {} \<union> set (handed_out pre SIV_zero). not_newer t g"
    using siv_inv_zero rp np by (rule run_not_newer) simp
  with g have gn: "not_newer t g" by (simp add: pre_def)
  have e: "fst (puts s1 vs) ! k = fst (Put t (vs ! k))"
    unfolding t_def using k by (rule puts_nth)
  show "sint (vid g) < sint (vid (fst (puts s1 vs) ! k))"
    unfolding e using wt nk gn r [unfolded e] by (rule Put_newer)
qed

text \<open>
  C6 on the test's three insertions, the removal of its second and first handle, and
  two insertions.
\<close>

theorem reuse_stacking_witness:
  "run [CPut 10, CPut 20, CPut 30] SIV_zero = Some scn_s3 \<and>
   removes scn_s3 [scn_h2, scn_h1] = Some stk_s1 \<and>
   nowrap ([CPut 10, CPut 20, CPut 30] @ map CRemove [scn_h2, scn_h1] @ map CPut [40, 50])
     (SIV_zero :: int SIV) \<and>
   fst (puts stk_s1 [40, 50]) = [\<lparr>rid = 0, vid = 2\<rparr>, \<lparr>rid = 1, vid = 2\<rparr>] \<and>
   scn_h2 \<in> set (handed_out
     ([CPut 10, CPut 20, CPut 30] @ map CRemove [scn_h2, scn_h1] @ map CPut (take 1 [40, 50]))
     (SIV_zero :: int SIV)) \<and>
   sint (vid scn_h2) < sint (vid (fst (puts stk_s1 [40, 50]) ! 1))"
proof -
  have rm: "removes scn_s3 [scn_h2, scn_h1] = Some stk_s1"
    by (simp add: scn_defs stk_s1_def op_defs)
  have le: "length [40, 50 :: int] \<le> length [scn_h2, scn_h1]" by simp
  have nw: "nowrap ([CPut 10, CPut 20, CPut 30] @ map CRemove [scn_h2, scn_h1] @
      map CPut [40, 50]) (SIV_zero :: int SIV)"
    by (simp add: wrapped_def gen_def scn_defs op_defs)
  note t = reuse_stacking [OF run_scn_s3 rm le]
  from t have a: "fst (puts stk_s1 [40, 50]) = [\<lparr>rid = 0, vid = 2\<rparr>, \<lparr>rid = 1, vid = 2\<rparr>]"
    by (simp add: scn_defs)
  have m: "scn_h2 \<in> set (handed_out
     ([CPut 10, CPut 20, CPut 30] @ map CRemove [scn_h2, scn_h1] @ map CPut (take 1 [40, 50]))
     (SIV_zero :: int SIV))"
    by (simp add: scn_defs op_defs)
  have k: "(1 :: nat) < length [40, 50 :: int]" by simp
  have r: "rid scn_h2 = rid (fst (puts stk_s1 [40, 50]) ! 1)"
    unfolding a by (simp add: scn_defs)
  from t nw k m r have b: "sint (vid scn_h2) < sint (vid (fst (puts stk_s1 [40, 50]) ! 1))"
    by blast
  show ?thesis using run_scn_s3 rm nw a m b by blast
qed

text \<open>Rounds of insertion and \<open>Pop\<close> on a container with one freed slot and no item.\<close>

lemma put_pop_cycles:
  "run (concat (replicate n [CPut v, CPop]) @ cs)
     \<lparr>data = [], indices = [0], meta = [\<lparr>rid = 0, vid = x\<rparr>]\<rparr> =
   run cs \<lparr>data = [], indices = [0], meta = [\<lparr>rid = 0, vid = x + 2 * of_nat n\<rparr>]\<rparr>"
proof (induction n arbitrary: x)
  case 0
  show ?case by simp
next
  case (Suc n)
  have "run (concat (replicate (Suc n) [CPut v, CPop]) @ cs)
      \<lparr>data = [], indices = [0], meta = [\<lparr>rid = 0, vid = x\<rparr>]\<rparr> =
    run (concat (replicate n [CPut v, CPop]) @ cs)
      \<lparr>data = [], indices = [0], meta = [\<lparr>rid = 0, vid = x + 2\<rparr>]\<rparr>"
    by (simp add: op_defs add.assoc)
  also have "\<dots> = run cs
      \<lparr>data = [], indices = [0], meta = [\<lparr>rid = 0, vid = x + 2 + 2 * of_nat n\<rparr>]\<rparr>"
    by (rule Suc.IH)
  also have "x + 2 + 2 * of_nat n = x + 2 * of_nat (Suc n)"
    by (simp add: algebra_simps)
  finally show ?case .
qed

lemma wrap_n_word: "(1 :: 64 word) + 2 * of_nat wrap_n + 1 = 2 ^ 63 - 2"
  by (simp add: wrap_n_def)

lemma run_wrap_calls: "run wrap_calls SIV_zero = Some wrap_s0"
proof -
  have "run wrap_calls SIV_zero =
      run (concat (replicate wrap_n [CPut 0, CPop]) @ [CPut 0])
        \<lparr>data = [], indices = [0], meta = [\<lparr>rid = 0, vid = 1\<rparr>]\<rparr>"
    unfolding wrap_calls_def by (simp add: op_defs)
  also have "\<dots> = run [CPut 0]
      \<lparr>data = [], indices = [0], meta = [\<lparr>rid = 0, vid = 1 + 2 * of_nat wrap_n\<rparr>]\<rparr>"
    by (rule put_pop_cycles)
  also have "\<dots> = Some wrap_s0"
    by (simp add: op_defs wrap_s0_def wrap_h_def wrap_n_word)
  finally show ?thesis .
qed

text \<open>
  Claim C6 as stated fails when a counter wraps: after the run \<open>wrap_calls\<close> and the
  removal of \<open>wrap_h\<close> the next insertion reuses the slot with the generation \<open>2 ^ 63\<close>,
  which as a signed \<open>int\<close> is \<open>- 2 ^ 63\<close> and less than the generation 0 of the handle
  the first insertion of the run returned for the same reference id.
\<close>

theorem reuse_after_wrap:
  "run wrap_calls SIV_zero = Some wrap_s0 \<and>
   removes wrap_s0 [wrap_h] = Some wrap_s1 \<and>
   fst (puts wrap_s1 [0]) = [\<lparr>rid = 0, vid = 2 ^ 63\<rparr>] \<and>
   \<lparr>rid = 0, vid = 0\<rparr> \<in> set (handed_out wrap_calls SIV_zero) \<and>
   sint (vid (\<lparr>rid = 0, vid = 2 ^ 63\<rparr> :: Handle)) < sint (vid (\<lparr>rid = 0, vid = 0\<rparr> :: Handle))"
proof -
  have a: "removes wrap_s0 [wrap_h] = Some wrap_s1"
    by (simp add: wrap_s0_def wrap_s1_def wrap_h_def op_defs)
  have b: "fst (puts wrap_s1 [0]) = [\<lparr>rid = 0, vid = 2 ^ 63\<rparr>]"
    by (simp add: wrap_s1_def op_defs)
  have c: "\<lparr>rid = 0, vid = 0\<rparr> \<in> set (handed_out wrap_calls SIV_zero)"
    unfolding wrap_calls_def by (simp add: op_defs)
  have d: "sint (vid (\<lparr>rid = 0, vid = 2 ^ 63\<rparr> :: Handle)) < sint (vid (\<lparr>rid = 0, vid = 0\<rparr> :: Handle))"
    by simp
  show ?thesis using run_wrap_calls a b c d by blast
qed

end
